theory Spec2Isabelle
  imports Main "HOL-Library.Char_ord" "HOL-Library.List_Lexorder" "HOL-Library.AList"
begin

section \<open>The Go string functions used by cppdep\<close>

text \<open>
  Go strings are byte sequences; they are modelled as \<^typ>\<open>string\<close>. Indices are
  \<^typ>\<open>int\<close>, with \<open>-1\<close> for "not found", as in package \<open>strings\<close>. The
  separator searched for by the program is always the one-byte string \<open>"/"\<close>, so
  \<open>Index\<close> and \<open>LastIndex\<close> take a character.
\<close>

fun Index :: "string \<Rightarrow> char \<Rightarrow> int" where
  "Index [] c = - 1"
| "Index (x # xs) c =
     (if x = c then 0 else (let r = Index xs c in if r = - 1 then - 1 else r + 1))"

fun LastIndex :: "string \<Rightarrow> char \<Rightarrow> int" where
  "LastIndex [] c = - 1"
| "LastIndex (x # xs) c =
     (let r = LastIndex xs c in if r \<noteq> - 1 then r + 1 else if x = c then 0 else - 1)"

fun IndexAny :: "string \<Rightarrow> string \<Rightarrow> int" where
  "IndexAny [] chars = - 1"
| "IndexAny (x # xs) chars =
     (if x \<in> set chars then 0
      else (let r = IndexAny xs chars in if r = - 1 then - 1 else r + 1))"

fun LastIndexAny :: "string \<Rightarrow> string \<Rightarrow> int" where
  "LastIndexAny [] chars = - 1"
| "LastIndexAny (x # xs) chars =
     (let r = LastIndexAny xs chars
      in if r \<noteq> - 1 then r + 1 else if x \<in> set chars then 0 else - 1)"

definition HasPrefix :: "string \<Rightarrow> string \<Rightarrow> bool" where
  "HasPrefix s pre = (take (length pre) s = pre)"

definition HasSuffix :: "string \<Rightarrow> string \<Rightarrow> bool" where
  "HasSuffix s suf = (length suf \<le> length s \<and> drop (length s - length suf) s = suf)"

fun Contains :: "string \<Rightarrow> string \<Rightarrow> bool" where
  "Contains [] sub = (sub = [])"
| "Contains (x # xs) sub = (HasPrefix (x # xs) sub \<or> Contains xs sub)"

definition TrimPrefix :: "string \<Rightarrow> string \<Rightarrow> string" where
  "TrimPrefix s pre = (if HasPrefix s pre then drop (length pre) s else s)"

definition TrimSuffix :: "string \<Rightarrow> string \<Rightarrow> string" where
  "TrimSuffix s suf = (if HasSuffix s suf then take (length s - length suf) s else s)"

section \<open>Data model\<close>

text \<open>
  The slices \<open>p.files\<close> and \<open>p.components\<close> are never appended to after
  \<open>read_files\<close>, so a pointer \<open>&p.files[i]\<close> or \<open>&p.components[i]\<close> is
  modelled by the index \<open>i\<close>, and the nil pointer of \<open>file.component\<close> by
  \<open>None\<close>. Pointer equality is equality of indices.
\<close>

record File =
  fpath :: string
  include_paths :: "string list"
  component :: "nat option"
  incoming_links :: "nat list"
  outgoing_links :: "nat list"

record component =
  cpath :: string
  cfiles :: "nat list"

record project =
  root :: string
  files :: "File list"
  components :: "component list"

record edge =
  efrom :: nat
  eto :: nat

record dependency =
  dcomponent :: nat
  edges :: "edge list"

record log_flags =
  flag_components :: "string list"
  warn_missing :: bool
  warn_malformed :: bool
  show_incoming :: bool
  show_outgoing :: bool

datatype error = NilDereference | OpenError | WalkError

section \<open>Component assignment\<close>

text \<open>The inner loop of \<open>assign_files_to_components\<close>: the index of the first
  component whose path equals the candidate, counting from \<open>i_c\<close>.\<close>

fun first_match :: "component list \<Rightarrow> string \<Rightarrow> nat \<Rightarrow> nat option" where
  "first_match [] cand i_c = None"
| "first_match (c # cs) cand i_c =
     (if cpath c = cand then Some i_c else first_match cs cand (Suc i_c))"

text \<open>The body executed on a match: append the file to the component's list and set
  the file's owner.\<close>

definition set_owner :: "project \<Rightarrow> nat \<Rightarrow> nat \<Rightarrow> project" where
  "set_owner p i_file i_c =
     p\<lparr>components := (components p)
          [i_c := (components p ! i_c)\<lparr>cfiles := cfiles (components p ! i_c) @ [i_file]\<rparr>],
       files := (files p)[i_file := (files p ! i_file)\<lparr>component := Some i_c\<rparr>]\<rparr>"

lemma LastIndex_bounds: "- 1 \<le> LastIndex s c \<and> LastIndex s c < int (length s)"
  by (induction s) (auto simp: Let_def)

lemma Index_bounds: "- 1 \<le> Index s c \<and> Index s c < int (length s)"
  by (induction s) (auto simp: Let_def)

text \<open>The loop \<open>for idx != -1\<close> for one file; \<open>path\<close> is the loop variable.
  One variant of the program also prints the candidates when the path contains
  \<open>ToolsDummy/Visualizer.hpp\<close>; this trace does not touch the project and is left out.\<close>

function assign_loop :: "project \<Rightarrow> nat \<Rightarrow> string \<Rightarrow> project" where
  "assign_loop p i_file path =
     (let idx = LastIndex path CHR ''/'';
          path' = (if idx \<noteq> - 1 then take (nat idx) path else [])
      in case first_match (components p) path' 0 of
           Some i_c \<Rightarrow> set_owner p i_file i_c
         | None \<Rightarrow> if idx \<noteq> - 1 then assign_loop p i_file path' else p)"
  by pat_completeness auto
termination
proof (relation "measure (\<lambda>(p, i_file, path). length path)")
  show "wf (measure (\<lambda>(p, i_file, path). length path))" by simp
next
  fix p :: project and i_file :: nat and path :: string and idx path'
  assume "idx = LastIndex path CHR ''/''"
    and "path' = (if idx \<noteq> - 1 then take (nat idx) path else [])"
    and "idx \<noteq> - 1"
  moreover have "- 1 \<le> LastIndex path CHR ''/'' \<and> LastIndex path CHR ''/'' < int (length path)"
    by (rule LastIndex_bounds)
  ultimately show "((p, i_file, path'), (p, i_file, path)) \<in> measure (\<lambda>(p, i_file, path). length path)"
    by auto
qed

declare assign_loop.simps [simp del]

text \<open>The body of the outer loop, for the file at index \<open>i_file\<close>.\<close>

definition assign_file :: "nat \<Rightarrow> project \<Rightarrow> project" where
  "assign_file i_file p = assign_loop p i_file (fpath (files p ! i_file))"

definition assign_files_to_components :: "project \<Rightarrow> project" where
  "assign_files_to_components p = fold assign_file [0..<length (files p)] p"

section \<open>Include resolution\<close>

text \<open>The index \<open>path_to_files\<close>, a Go map from a path suffix to the files registered
  under it, in registration order. A missing key reads as the nil slice.\<close>

definition register :: "(string \<rightharpoonup> nat list) \<Rightarrow> string \<Rightarrow> nat \<Rightarrow> (string \<rightharpoonup> nat list)" where
  "register m key i_file =
     m(key \<mapsto> (case m key of None \<Rightarrow> [] | Some fs \<Rightarrow> fs) @ [i_file])"

function register_suffixes ::
  "(string \<rightharpoonup> nat list) \<Rightarrow> string \<Rightarrow> nat \<Rightarrow> (string \<rightharpoonup> nat list)" where
  "register_suffixes m pth i_file =
     (let idx = Index pth CHR ''/''
      in if idx \<noteq> - 1
         then (let pth' = drop (nat (idx + 1)) pth
               in register_suffixes (register m pth' i_file) pth' i_file)
         else m)"
  by pat_completeness auto
termination
proof (relation "measure (\<lambda>(m, pth, i_file). length pth)")
  show "wf (measure (\<lambda>(m, pth, i_file). length pth))" by simp
next
  fix m :: "string \<rightharpoonup> nat list" and pth :: string and i_file :: nat and idx pth'
  assume "idx = Index pth CHR ''/''" and "idx \<noteq> - 1" and "pth' = drop (nat (idx + 1)) pth"
  moreover have "- 1 \<le> Index pth CHR ''/'' \<and> Index pth CHR ''/'' < int (length pth)"
    by (rule Index_bounds)
  ultimately show "((register m pth' i_file, pth', i_file), (m, pth, i_file))
      \<in> measure (\<lambda>(m, pth, i_file). length pth)"
    by auto
qed

declare register_suffixes.simps [simp del]

definition build_index :: "File list \<Rightarrow> (string \<rightharpoonup> nat list)" where
  "build_index fs =
     fold (\<lambda>i_file m. register_suffixes (register m (fpath (fs ! i_file)) i_file)
                          (fpath (fs ! i_file)) i_file)
       [0..<length fs] Map.empty"

text \<open>The search for a candidate in the including file's component, with its
  \<open>break\<close>. \<open>file\<close> is the loop's copy of \<open>p.files[i_file]\<close>. The comparison
  is one of pointers, so two nil owners compare equal.\<close>

fun is_present_in_this_component :: "project \<Rightarrow> File \<Rightarrow> nat list \<Rightarrow> bool" where
  "is_present_in_this_component p file [] = False"
| "is_present_in_this_component p file (dep # deps) =
     (if component (files p ! dep) = component file then True
      else is_present_in_this_component p file deps)"

text \<open>One round of the loop that records an edge: the outgoing link on the including
  file, then the incoming link on the target.\<close>

definition add_link :: "nat \<Rightarrow> nat \<Rightarrow> project \<Rightarrow> project" where
  "add_link i_file dep p =
     (let p1 = p\<lparr>files := (files p)
                 [i_file := (files p ! i_file)
                    \<lparr>outgoing_links := outgoing_links (files p ! i_file) @ [dep]\<rparr>]\<rparr>
      in p1\<lparr>files := (files p1)
               [dep := (files p1 ! dep)
                  \<lparr>incoming_links := incoming_links (files p1 ! dep) @ [i_file]\<rparr>]\<rparr>)"

definition resolve_include ::
  "(string \<rightharpoonup> nat list) \<Rightarrow> nat \<Rightarrow> File \<Rightarrow> string \<Rightarrow> project \<Rightarrow> project" where
  "resolve_include path_to_files i_file file include p =
     (case path_to_files include of
        Some deps \<Rightarrow>
          if \<not> is_present_in_this_component p file deps
          then fold (add_link i_file) deps p
          else p
      | None \<Rightarrow> p)"

text \<open>The body of the second loop over \<open>p.files\<close>; \<open>file\<close> is the copy of
  \<open>p.files[i_file]\<close> that \<open>range\<close> makes when the round starts.\<close>

definition resolve_file :: "(string \<rightharpoonup> nat list) \<Rightarrow> nat \<Rightarrow> project \<Rightarrow> project" where
  "resolve_file path_to_files i_file p =
     (let file = files p ! i_file
      in fold (resolve_include path_to_files i_file file) (include_paths file) p)"

definition generate_file_deps :: "project \<Rightarrow> project" where
  "generate_file_deps p =
     (let path_to_files = build_index (files p)
      in fold (resolve_file path_to_files) [0..<length (files p)] p)"

text \<open>What \<open>generate_file_deps\<close> prints: one line per include with no index entry,
  when \<open>warn_missing\<close> is set. The index and the include lists are not changed by the
  second loop, so the output is a function of the project the call starts from.\<close>

definition generate_file_deps_output :: "log_flags \<Rightarrow> project \<Rightarrow> string list" where
  "generate_file_deps_output flags p =
     (let path_to_files = build_index (files p)
      in concat (map (\<lambda>file.
           concat (map (\<lambda>include.
             if path_to_files include = None \<and> warn_missing flags
             then [''Include not found in '' @ fpath file @ '': '' @ include]
             else []) (include_paths file))) (files p)))"

definition run :: "project \<Rightarrow> project" where
  "run p = generate_file_deps (assign_files_to_components p)"

section \<open>Aggregation and reporting\<close>

text \<open>The Go maps \<open>incoming\<close> and \<open>outgoing\<close> of \<open>linked_components\<close>, keyed by
  component pointer, as association lists with distinct keys. A key is never nil: the
  source reads \<open>in.component.path\<close> before it uses \<open>in.component\<close> as a key, and
  that read panics on a nil owner.\<close>

type_synonym buckets = "(nat \<times> edge list) list"

definition bucket_append :: "buckets \<Rightarrow> nat \<Rightarrow> edge \<Rightarrow> buckets" where
  "bucket_append m k e =
     AList.update k ((case map_of m k of None \<Rightarrow> [] | Some es \<Rightarrow> es) @ [e]) m"

fun scan_incoming :: "project \<Rightarrow> string \<Rightarrow> nat \<Rightarrow> nat list \<Rightarrow> buckets \<Rightarrow> error + buckets" where
  "scan_incoming p c_path f [] incoming = Inr incoming"
| "scan_incoming p c_path f (i # ins) incoming =
     (case component (files p ! i) of
        None \<Rightarrow> Inl NilDereference
      | Some k \<Rightarrow>
          if cpath (components p ! k) \<noteq> c_path
          then scan_incoming p c_path f ins (bucket_append incoming k \<lparr>efrom = i, eto = f\<rparr>)
          else scan_incoming p c_path f ins incoming)"

fun scan_outgoing :: "project \<Rightarrow> string \<Rightarrow> nat \<Rightarrow> nat list \<Rightarrow> buckets \<Rightarrow> error + buckets" where
  "scan_outgoing p c_path f [] outgoing = Inr outgoing"
| "scan_outgoing p c_path f (out # outs) outgoing =
     (case component (files p ! out) of
        None \<Rightarrow> Inl NilDereference
      | Some k \<Rightarrow>
          if cpath (components p ! k) \<noteq> c_path
          then scan_outgoing p c_path f outs (bucket_append outgoing k \<lparr>efrom = f, eto = out\<rparr>)
          else scan_outgoing p c_path f outs outgoing)"

fun scan_files ::
  "project \<Rightarrow> string \<Rightarrow> nat list \<Rightarrow> buckets \<times> buckets \<Rightarrow> error + buckets \<times> buckets" where
  "scan_files p c_path [] acc = Inr acc"
| "scan_files p c_path (f # fs) (incoming, outgoing) =
     (case scan_incoming p c_path f (incoming_links (files p ! f)) incoming of
        Inl e \<Rightarrow> Inl e
      | Inr incoming' \<Rightarrow>
          (case scan_outgoing p c_path f (outgoing_links (files p ! f)) outgoing of
             Inl e \<Rightarrow> Inl e
           | Inr outgoing' \<Rightarrow> scan_files p c_path fs (incoming', outgoing')))"

definition to_dependency :: "nat \<times> edge list \<Rightarrow> dependency" where
  "to_dependency kv = \<lparr>dcomponent = fst kv, edges = snd kv\<rparr>"

text \<open>Go leaves the order in which \<open>range\<close> visits a map unspecified; the parameter
  \<open>map_range\<close> stands for it.\<close>

definition linked_components ::
  "(buckets \<Rightarrow> buckets) \<Rightarrow> project \<Rightarrow> nat \<Rightarrow> error + dependency list \<times> dependency list" where
  "linked_components map_range p i_c =
     (let c = components p ! i_c
      in case scan_files p (cpath c) (cfiles c) ([], []) of
           Inl e \<Rightarrow> Inl e
         | Inr (incoming, outgoing) \<Rightarrow>
             Inr (map to_dependency (map_range incoming),
                  map to_dependency (map_range outgoing)))"

text \<open>\<open>sort.Slice\<close> is library code that sorts a slice by the given \<open>less\<close>, with
  no promise of stability. It is modelled by insertion sort; the comparison takes the two
  elements instead of their positions.\<close>

fun insert_less :: "('a \<Rightarrow> 'a \<Rightarrow> bool) \<Rightarrow> 'a \<Rightarrow> 'a list \<Rightarrow> 'a list" where
  "insert_less lt x [] = [x]"
| "insert_less lt x (y # ys) =
     (if lt x y then x # y # ys else y # insert_less lt x ys)"

definition sort_Slice :: "('a \<Rightarrow> 'a \<Rightarrow> bool) \<Rightarrow> 'a list \<Rightarrow> 'a list" where
  "sort_Slice lt xs = foldr (insert_less lt) xs []"

text \<open>The comparison of \<open>dbg\<close>: Go compares strings in the lexicographic order
  on bytes.\<close>

definition path_less :: "project \<Rightarrow> dependency \<Rightarrow> dependency \<Rightarrow> bool" where
  "path_less p d1 d2 =
     (cpath (components p ! dcomponent d1) < cpath (components p ! dcomponent d2))"

text \<open>\<open>dbg\<close> prints the component's two dependency lists in the order of the sorted
  slices; the model returns these slices.\<close>

definition dbg ::
  "(buckets \<Rightarrow> buckets) \<Rightarrow> project \<Rightarrow> nat \<Rightarrow> error + dependency list \<times> dependency list" where
  "dbg map_range p i_c =
     (case linked_components map_range p i_c of
        Inl e \<Rightarrow> Inl e
      | Inr (ins, outs) \<Rightarrow> Inr (sort_Slice (path_less p) ins, sort_Slice (path_less p) outs))"

text \<open>\<open>dbg_components\<close> reports the components in discovery order: all of them when no
  name is given on the command line, else those whose nice name is given. A panic in one
  report ends the run. The model returns the reports, each with the component's index.\<close>

definition nice_name :: "component \<Rightarrow> string" where
  "nice_name c = (if cpath c = [] then ''.'' else cpath c)"

definition should_print :: "log_flags \<Rightarrow> component \<Rightarrow> bool" where
  "should_print flags c \<longleftrightarrow>
     length (flag_components flags) = 0 \<or>
     list_ex (\<lambda>name. name = nice_name c) (flag_components flags)"

fun dbg_each ::
  "(buckets \<Rightarrow> buckets) \<Rightarrow> log_flags \<Rightarrow> project \<Rightarrow> nat list
    \<Rightarrow> error + (nat \<times> dependency list \<times> dependency list) list" where
  "dbg_each map_range flags p [] = Inr []"
| "dbg_each map_range flags p (i_c # rest) =
     (if should_print flags (components p ! i_c)
      then (case dbg map_range p i_c of
              Inl e \<Rightarrow> Inl e
            | Inr r \<Rightarrow>
                (case dbg_each map_range flags p rest of
                   Inl e \<Rightarrow> Inl e
                 | Inr rs \<Rightarrow> Inr ((i_c, r) # rs)))
      else dbg_each map_range flags p rest)"

definition dbg_components ::
  "(buckets \<Rightarrow> buckets) \<Rightarrow> log_flags \<Rightarrow> project
    \<Rightarrow> error + (nat \<times> dependency list \<times> dependency list) list" where
  "dbg_components map_range flags p =
     dbg_each map_range flags p [0..<length (components p)]"

section \<open>Discovery\<close>

text \<open>One round of the scanner loop of \<open>extract_includes\<close>. The state is the slice
  \<open>results\<close> and the lines printed so far. \<open>CHR 0x22\<close> is the double quote and
  \<open>CHR 0x5C\<close> the backslash.\<close>

definition malformed_msg :: "string \<Rightarrow> string \<Rightarrow> string" where
  "malformed_msg pth what = ''Malformed #include in '' @ pth @ '': '' @ what"

definition extract_line ::
  "log_flags \<Rightarrow> string \<Rightarrow> string \<Rightarrow> string list \<times> string list \<Rightarrow> string list \<times> string list" where
  "extract_line flags pth line st =
     (let results = fst st; out = snd st
      in if HasPrefix line ''#include''
         then (let iStart = IndexAny line [CHR 0x22, CHR ''<''];
                   iEnd = LastIndexAny line [CHR 0x22, CHR ''>'']
               in if iStart = - 1 \<or> iEnd = - 1 \<or> iStart \<ge> iEnd
                  then (results,
                        if warn_malformed flags then out @ [malformed_msg pth line] else out)
                  else (let include_path = drop (nat (iStart + 1)) (take (nat iEnd) line)
                        in if Contains include_path [CHR 0x5C] \<or> Contains include_path ''..''
                           then (results,
                                 if warn_malformed flags
                                 then out @ [malformed_msg pth include_path] else out)
                           else (results @ [include_path], out)))
         else (results, out))"

text \<open>The file system is a parameter: the lines of each file that can be opened, as the
  scanner delivers them. A failing \<open>os.Open\<close> panics.\<close>

definition extract_includes ::
  "(string \<rightharpoonup> string list) \<Rightarrow> string \<Rightarrow> log_flags \<Rightarrow> error + string list \<times> string list" where
  "extract_includes fs pth flags =
     (case fs pth of
        None \<Rightarrow> Inl OpenError
      | Some lines \<Rightarrow> Inr (fold (extract_line flags pth) lines ([], [])))"

definition rel_path :: "project \<Rightarrow> string \<Rightarrow> string" where
  "rel_path p pth = TrimPrefix (TrimPrefix pth (root p)) ''/''"

text \<open>An entry handed to the function given to \<open>filepath.Walk\<close>: the path, the name
  \<open>info.Name()\<close> and whether Walk reports an error for it.\<close>

record walk_entry =
  wpath :: string
  wname :: string
  werr :: bool

datatype walk_result = Continue | SkipDir

text \<open>The loop over \<open>source_suffixes\<close> in the walk function.\<close>

fun add_source :: "(string \<rightharpoonup> string list) \<Rightarrow> log_flags \<Rightarrow> string \<Rightarrow> string list \<Rightarrow> project
    \<Rightarrow> error + project" where
  "add_source fs flags pth [] p = Inr p"
| "add_source fs flags pth (suffix # suffixes) p =
     (if HasSuffix pth suffix
      then (case extract_includes fs pth flags of
              Inl e \<Rightarrow> Inl e
            | Inr (include_paths', out) \<Rightarrow>
                add_source fs flags pth suffixes
                  (p\<lparr>files := files p @
                       [\<lparr>fpath = rel_path p pth, include_paths = include_paths',
                         component = None, incoming_links = [], outgoing_links = []\<rparr>]\<rparr>))
      else add_source fs flags pth suffixes p)"

definition walk_fn ::
  "string list \<Rightarrow> (string \<rightharpoonup> string list) \<Rightarrow> log_flags \<Rightarrow> project \<Rightarrow> walk_entry
    \<Rightarrow> error + project \<times> walk_result" where
  "walk_fn source_suffixes fs flags p e =
     (if werr e then Inl WalkError
      else if list_ex (Contains (wpath e)) [''.svn'', ''dev/tools''] then Inr (p, SkipDir)
      else (let p1 = (if wname e = ''CMakeLists.txt''
                      then p\<lparr>components := components p @
                             [\<lparr>cpath = rel_path p (TrimSuffix (wpath e) ''/CMakeLists.txt''),
                               cfiles = []\<rparr>]\<rparr>
                      else p)
            in case add_source fs flags (wpath e) source_suffixes p1 of
                 Inl err \<Rightarrow> Inl err
               | Inr p2 \<Rightarrow> Inr (p2, Continue)))"

text \<open>\<open>filepath.Walk\<close> is library code. The model takes the entries that Walk visits,
  in its order, as the list \<open>entries\<close>; which entries follow a \<open>SkipDir\<close> is Walk's
  business. An error returned by the function ends the walk and \<open>read_files\<close>
  panics. The lines printed by \<open>read_files\<close> are not modelled. The suffix list is
  a parameter of \<open>walk\<close>: the second variant of the program has \<open>.c\<close> as a fourth
  suffix, and writes its messages in lower case.\<close>

fun walk :: "string list \<Rightarrow> (string \<rightharpoonup> string list) \<Rightarrow> log_flags \<Rightarrow> walk_entry list \<Rightarrow> project
    \<Rightarrow> error + project" where
  "walk source_suffixes fs flags [] p = Inr p"
| "walk source_suffixes fs flags (e # es) p =
     (case walk_fn source_suffixes fs flags p e of
        Inl err \<Rightarrow> Inl err
      | Inr (p', r) \<Rightarrow> walk source_suffixes fs flags es p')"

definition read_files ::
  "(string \<rightharpoonup> string list) \<Rightarrow> walk_entry list \<Rightarrow> string \<Rightarrow> log_flags \<Rightarrow> error + project" where
  "read_files fs entries root_path flags =
     walk [''.cpp'', ''.hpp'', ''.h''] fs flags entries
       \<lparr>root = TrimSuffix root_path ''/'', files = [], components = []\<rparr>"

section \<open>Notions used to state the properties\<close>

text \<open>The strict ancestor directories of a path, most specific first and ending with the
  empty string: \<open>a/b/c.h\<close> has \<open>a/b\<close>, \<open>a\<close> and the empty string. This follows the
  specification's wording, not the loop.\<close>

definition strict_ancestors :: "string \<Rightarrow> string list" where
  "strict_ancestors pth =
     map (\<lambda>i. take i pth) (rev (filter (\<lambda>i. pth ! i = CHR ''/'') [0..<length pth])) @ [[]]"

text \<open>The owner the specification asks for: the first component at the first ancestor that
  is the path of a component.\<close>

definition owner_spec :: "component list \<Rightarrow> string \<Rightarrow> nat option" where
  "owner_spec cs pth =
     (case List.find (\<lambda>cand. cand \<in> cpath ` set cs) (strict_ancestors pth) of
        None \<Rightarrow> None
      | Some cand \<Rightarrow> first_match cs cand 0)"

definition owner_of :: "project \<Rightarrow> nat \<Rightarrow> nat option" where
  "owner_of p i = owner_spec (components p) (fpath (files p ! i))"

text \<open>The part of a project that discovery fixes and that neither pass changes: the root,
  the file paths with their inclusion strings, and the component paths.\<close>

definition same_input :: "project \<Rightarrow> project \<Rightarrow> bool" where
  "same_input q p \<longleftrightarrow>
     root q = root p \<and>
     map fpath (files q) = map fpath (files p) \<and>
     map include_paths (files q) = map include_paths (files p) \<and>
     map cpath (components q) = map cpath (components p)"

definition same_links :: "project \<Rightarrow> project \<Rightarrow> bool" where
  "same_links q p \<longleftrightarrow>
     map incoming_links (files q) = map incoming_links (files p) \<and>
     map outgoing_links (files q) = map outgoing_links (files p)"

text \<open>A project as \<open>read_files\<close> returns it: no owner, no link and no member file yet.\<close>

definition fresh :: "project \<Rightarrow> bool" where
  "fresh p \<longleftrightarrow>
     list_all (\<lambda>f. component f = None \<and> incoming_links f = [] \<and> outgoing_links f = [])
       (files p) \<and>
     list_all (\<lambda>c. cfiles c = []) (components p)"

text \<open>The owners and the discovered input agree; the links may differ.\<close>

definition same_owners :: "project \<Rightarrow> project \<Rightarrow> bool" where
  "same_owners q p \<longleftrightarrow>
     same_input q p \<and> map component (files q) = map component (files p)"

text \<open>The files an inclusion string of \<open>file\<close> resolves to: none when the string has no
  index entry or an entry holds a file of the including file's component, every file of
  the entry otherwise.\<close>

definition resolved_targets :: "(string \<rightharpoonup> nat list) \<Rightarrow> project \<Rightarrow> File \<Rightarrow> string \<Rightarrow> nat list" where
  "resolved_targets path_to_files p file include =
     (case path_to_files include of
        None \<Rightarrow> []
      | Some deps \<Rightarrow> if is_present_in_this_component p file deps then [] else deps)"

text \<open>The targets of all inclusion strings of the file at index \<open>i\<close>, one after the
  other, and the sources of the edges that end in the file at index \<open>j\<close>, in the order
  in which the resolver visits them.\<close>

definition file_targets :: "(string \<rightharpoonup> nat list) \<Rightarrow> project \<Rightarrow> nat \<Rightarrow> nat list" where
  "file_targets path_to_files p i =
     concat (map (resolved_targets path_to_files p (files p ! i)) (include_paths (files p ! i)))"

definition file_sources :: "(string \<rightharpoonup> nat list) \<Rightarrow> project \<Rightarrow> nat \<Rightarrow> nat list" where
  "file_sources path_to_files p j =
     concat (map (\<lambda>i. replicate (count_list (file_targets path_to_files p i) j) i)
               [0..<length (files p)])"

definition index_in_range :: "(string \<rightharpoonup> nat list) \<Rightarrow> nat \<Rightarrow> bool" where
  "index_in_range m n \<longleftrightarrow> (\<forall>k D. m k = Some D \<longrightarrow> (\<forall>d \<in> set D. d < n))"

text \<open>Every link is the index of a file of the project.\<close>

definition links_in_range :: "project \<Rightarrow> bool" where
  "links_in_range p \<longleftrightarrow>
     list_all (\<lambda>f. list_all (\<lambda>j. j < length (files p)) (incoming_links f @ outgoing_links f))
       (files p)"

text \<open>The file \<open>b\<close> occurs in the outgoing links of \<open>a\<close> as often as \<open>a\<close> occurs in
  the incoming links of \<open>b\<close>.\<close>

definition links_symmetric :: "project \<Rightarrow> bool" where
  "links_symmetric p \<longleftrightarrow>
     list_all (\<lambda>a. list_all (\<lambda>b.
         count_list (outgoing_links (files p ! a)) b = count_list (incoming_links (files p ! b)) a)
       [0..<length (files p)]) [0..<length (files p)]"

definition no_self_links :: "project \<Rightarrow> bool" where
  "no_self_links p \<longleftrightarrow>
     list_all (\<lambda>i. i \<notin> set (outgoing_links (files p ! i)) \<and> i \<notin> set (incoming_links (files p ! i)))
       [0..<length (files p)]"

text \<open>The edges as a set of pairs (from, to), read from the outgoing and from the incoming
  lists, and the member files of each component as a set.\<close>

definition edge_set :: "project \<Rightarrow> (nat \<times> nat) set" where
  "edge_set p =
     set (concat (map (\<lambda>a. map (\<lambda>b. (a, b)) (outgoing_links (files p ! a)))
                    [0..<length (files p)]))"

definition incoming_edge_set :: "project \<Rightarrow> (nat \<times> nat) set" where
  "incoming_edge_set p =
     set (concat (map (\<lambda>b. map (\<lambda>a. (a, b)) (incoming_links (files p ! b)))
                    [0..<length (files p)]))"

definition groupings :: "project \<Rightarrow> nat set list" where
  "groupings p = map (\<lambda>c. set (cfiles c)) (components p)"

text \<open>The edge list stored under the key \<open>k\<close>, empty when there is none.\<close>

definition bucket :: "buckets \<Rightarrow> nat \<Rightarrow> edge list" where
  "bucket m k = (case map_of m k of None \<Rightarrow> [] | Some es \<Rightarrow> es)"

definition buckets_ok :: "buckets \<Rightarrow> bool" where
  "buckets_ok m \<longleftrightarrow> distinct (map fst m) \<and> (\<forall>kv \<in> set m. snd kv \<noteq> [])"

text \<open>The edges between the file \<open>f\<close> and the files of its link list that are owned by
  the component \<open>k\<close>, when the path of \<open>k\<close> differs from \<open>c_path\<close>: one edge for every
  occurrence in the list.\<close>

definition cross_out :: "project \<Rightarrow> string \<Rightarrow> nat \<Rightarrow> nat list \<Rightarrow> nat \<Rightarrow> edge list" where
  "cross_out p c_path f outs k =
     map (\<lambda>out. \<lparr>efrom = f, eto = out\<rparr>)
       (filter (\<lambda>out. component (files p ! out) = Some k \<and> cpath (components p ! k) \<noteq> c_path) outs)"

definition cross_in :: "project \<Rightarrow> string \<Rightarrow> nat \<Rightarrow> nat list \<Rightarrow> nat \<Rightarrow> edge list" where
  "cross_in p c_path f ins k =
     map (\<lambda>i. \<lparr>efrom = i, eto = f\<rparr>)
       (filter (\<lambda>i. component (files p ! i) = Some k \<and> cpath (components p ! k) \<noteq> c_path) ins)"

text \<open>All edges between the member files of the component \<open>i_c\<close> and the files of the
  component \<open>k\<close>, in the order of the file list and of the link lists.\<close>

definition cross_edges_out :: "project \<Rightarrow> nat \<Rightarrow> nat \<Rightarrow> edge list" where
  "cross_edges_out p i_c k =
     concat (map (\<lambda>f. cross_out p (cpath (components p ! i_c)) f (outgoing_links (files p ! f)) k)
               (cfiles (components p ! i_c)))"

definition cross_edges_in :: "project \<Rightarrow> nat \<Rightarrow> nat \<Rightarrow> edge list" where
  "cross_edges_in p i_c k =
     concat (map (\<lambda>f. cross_in p (cpath (components p ! i_c)) f (incoming_links (files p ! f)) k)
               (cfiles (components p ! i_c)))"

text \<open>The path of the partner component of a dependency, the key of the report's order.\<close>

definition partner_path :: "project \<Rightarrow> dependency \<Rightarrow> string" where
  "partner_path p d = cpath (components p ! dcomponent d)"

text \<open>An include line without a delimiter pair: no opening quote or angle bracket, no
  closing one, or the first opening one not before the last closing one. Otherwise
  \<open>extracted\<close> is the text between the two. A string is clean when it has neither a
  backslash nor two dots in a row.\<close>

definition no_delimiter_pair :: "string \<Rightarrow> bool" where
  "no_delimiter_pair line \<longleftrightarrow>
     IndexAny line [CHR 0x22, CHR ''<''] = - 1 \<or>
     LastIndexAny line [CHR 0x22, CHR ''>''] = - 1 \<or>
     IndexAny line [CHR 0x22, CHR ''<''] \<ge> LastIndexAny line [CHR 0x22, CHR ''>'']"

definition extracted :: "string \<Rightarrow> string" where
  "extracted line =
     drop (nat (IndexAny line [CHR 0x22, CHR ''<''] + 1))
       (take (nat (LastIndexAny line [CHR 0x22, CHR ''>''])) line)"

definition clean :: "string \<Rightarrow> bool" where
  "clean s \<longleftrightarrow> \<not> Contains s [CHR 0x5C] \<and> \<not> Contains s ''..''"

text \<open>Every file linked with a member file of the component \<open>i_c\<close> has an owner.\<close>

definition links_owned :: "project \<Rightarrow> nat \<Rightarrow> bool" where
  "links_owned p i_c \<longleftrightarrow>
     list_all (\<lambda>f. list_all (\<lambda>l. component (files p ! l) \<noteq> None)
                      (incoming_links (files p ! f) @ outgoing_links (files p ! f)))
       (cfiles (components p ! i_c))"

section \<open>Example projects\<close>

definition new_file :: "string \<Rightarrow> string list \<Rightarrow> File" where
  "new_file pth includes =
     \<lparr>fpath = pth, include_paths = includes, component = None,
      incoming_links = [], outgoing_links = []\<rparr>"

definition new_component :: "string \<Rightarrow> component" where
  "new_component pth = \<lparr>cpath = pth, cfiles = []\<rparr>"

definition ex_flags :: log_flags where
  "ex_flags = \<lparr>flag_components = [], warn_missing = True, warn_malformed = True,
     show_incoming = True, show_outgoing = True\<rparr>"

text \<open>Components at the root, at \<open>a\<close> and at \<open>a/b\<close>, and one file below \<open>a/b/c\<close>.\<close>

definition ex_nested :: project where
  "ex_nested = \<lparr>root = ''/r'', files = [new_file ''a/b/c/d.h'' []],
     components = [new_component '''', new_component ''a'', new_component ''a/b'']\<rparr>"

text \<open>A tree \<open>/r\<close> with \<open>x.h\<close> at the top and the only \<open>CMakeLists.txt\<close> in the
  directory \<open>a\<close>, and the project read from it.\<close>

definition ex_entries :: "walk_entry list" where
  "ex_entries =
     [\<lparr>wpath = ''/r'', wname = ''r'', werr = False\<rparr>,
      \<lparr>wpath = ''/r/a'', wname = ''a'', werr = False\<rparr>,
      \<lparr>wpath = ''/r/a/CMakeLists.txt'', wname = ''CMakeLists.txt'', werr = False\<rparr>,
      \<lparr>wpath = ''/r/x.h'', wname = ''x.h'', werr = False\<rparr>]"

definition ex_fs :: "string \<rightharpoonup> string list" where
  "ex_fs = [''/r/x.h'' \<mapsto> []]"

definition ex_no_root :: project where
  "ex_no_root = \<lparr>root = ''/r'', files = [new_file ''x.h'' []],
     components = [new_component ''a'']\<rparr>"

text \<open>A file outside every component next to a file inside the component \<open>lib\<close>.\<close>

definition ex_orphan :: project where
  "ex_orphan = \<lparr>root = ''/r'', files = [new_file ''src/x.h'' [], new_file ''lib/y.h'' []],
     components = [new_component ''lib'']\<rparr>"

text \<open>\<open>util.h\<close> exists in the including file's component \<open>x\<close> and in \<open>y\<close>.\<close>

definition ex_shadow :: project where
  "ex_shadow = \<lparr>root = ''/r'',
     files = [new_file ''x/f.cpp'' [''util.h''], new_file ''x/util.h'' [],
              new_file ''y/util.h'' []],
     components = [new_component ''x'', new_component ''y'']\<rparr>"

text \<open>\<open>util.h\<close> exists in \<open>y\<close> and \<open>z\<close> only.\<close>

definition ex_fanout :: project where
  "ex_fanout = \<lparr>root = ''/r'',
     files = [new_file ''x/f.cpp'' [''util.h''], new_file ''y/util.h'' [],
              new_file ''z/util.h'' []],
     components = [new_component ''x'', new_component ''y'', new_component ''z'']\<rparr>"

text \<open>A header that names itself, with a namesake in another component.\<close>

definition ex_self :: project where
  "ex_self = \<lparr>root = ''/r'',
     files = [new_file ''a/self.h'' [''self.h''], new_file ''b/self.h'' []],
     components = [new_component ''a'', new_component ''b'']\<rparr>"

text \<open>A file that names the same header three times, by two different strings.\<close>

definition ex_dup :: project where
  "ex_dup = \<lparr>root = ''/r'',
     files = [new_file ''main.cpp'' [''lib/api.h'', ''api.h'', ''api.h''],
              new_file ''lib/api.h'' []],
     components = [new_component '''', new_component ''lib'']\<rparr>"

text \<open>The component \<open>m\<close> depends on \<open>z\<close> and on \<open>a\<close>, found in this order.\<close>

definition ex_sort :: project where
  "ex_sort = \<lparr>root = ''/r'',
     files = [new_file ''m/f.cpp'' [''z.h'', ''a.h''], new_file ''z/z.h'' [],
              new_file ''a/a.h'' []],
     components = [new_component ''m'', new_component ''z'', new_component ''a'']\<rparr>"

text \<open>Include lines: a quoted \<open>a\b.h\<close>, a quoted \<open>..\x.h\<close>, and a quote that is never
  closed.\<close>

definition ex_line_backslash :: string where
  "ex_line_backslash = ''#include '' @ [CHR 0x22] @ ''a'' @ [CHR 0x5C] @ ''b.h'' @ [CHR 0x22]"

definition ex_line_parent :: string where
  "ex_line_parent = ''#include '' @ [CHR 0x22] @ ''..'' @ [CHR 0x5C] @ ''x.h'' @ [CHR 0x22]"

definition ex_line_unclosed :: string where
  "ex_line_unclosed = ''#include '' @ [CHR 0x22] @ ''x.h''"

definition ex_flags_quiet :: log_flags where
  "ex_flags_quiet = \<lparr>flag_components = [], warn_missing = False, warn_malformed = False,
     show_incoming = False, show_outgoing = False\<rparr>"

text \<open>Two files outside every component; the first names the second and a file of the
  component \<open>a\<close>.\<close>

definition ex_orphan_edge :: project where
  "ex_orphan_edge = \<lparr>root = ''/r'',
     files = [new_file ''x.h'' [''a/y.h'', ''z.h''], new_file ''a/y.h'' [], new_file ''z.h'' []],
     components = [new_component ''a'']\<rparr>"

text \<open>The entries of a walk from the default root \<open>.\<close> over a directory that holds
  \<open>CMakeLists.txt\<close> and \<open>main.cpp\<close>: Walk joins the root and a name to the clean path,
  which has no leading \<open>./\<close>.\<close>

definition ex_entries_dot :: "walk_entry list" where
  "ex_entries_dot =
     [\<lparr>wpath = ''.'', wname = ''.'', werr = False\<rparr>,
      \<lparr>wpath = ''CMakeLists.txt'', wname = ''CMakeLists.txt'', werr = False\<rparr>,
      \<lparr>wpath = ''main.cpp'', wname = ''main.cpp'', werr = False\<rparr>]"

section \<open>Component assignment: the loop finds the specified owner\<close>

lemma LastIndex_neg: "LastIndex s c = - 1 \<longleftrightarrow> c \<notin> set s"
proof (induction s)
  case Nil
  then show ?case by simp
next
  case (Cons x xs)
  then show ?case using LastIndex_bounds[of xs c] by (auto simp: Let_def)
qed

lemma LastIndex_pos:
  assumes "LastIndex s c \<noteq> - 1"
  shows "nat (LastIndex s c) < length s \<and> s ! nat (LastIndex s c) = c \<and>
         (\<forall>j. nat (LastIndex s c) < j \<and> j < length s \<longrightarrow> s ! j \<noteq> c)"
  using assms
proof (induction s)
  case Nil
  then show ?case by simp
next
  case (Cons x xs)
  show ?case
  proof (cases "LastIndex xs c = - 1")
    case True
    then have "c \<notin> set xs" by (simp add: LastIndex_neg)
    moreover from True Cons.prems have "x = c" by (auto simp: Let_def split: if_splits)
    ultimately show ?thesis using True by (auto simp: Let_def nth_Cons split: nat.splits)
  next
    case False
    have b: "0 \<le> LastIndex xs c" using LastIndex_bounds[of xs c] False by linarith
    then have n: "nat (LastIndex xs c + 1) = Suc (nat (LastIndex xs c))" by linarith
    from Cons.IH[OF False] show ?thesis using False n
      by (auto simp: Let_def nth_Cons split: nat.splits)
  qed
qed

lemma filter_upt_last:
  assumes "k < n" and "P k" and "\<forall>j. k < j \<and> j < n \<longrightarrow> \<not> P j"
  shows "filter P [0..<n] = filter P [0..<k] @ [k]"
proof -
  have "[0..<k + (n - k)] = [0..<k] @ [k..<k + (n - k)]"
    by (rule upt_add_eq_append) simp
  then have "[0..<n] = [0..<k] @ [k..<n]"
    using assms(1) by simp
  also have "[k..<n] = k # [Suc k..<n]"
    using assms(1) by (simp add: upt_conv_Cons)
  finally have "[0..<n] = [0..<k] @ [k] @ [Suc k..<n]" by simp
  moreover have "filter P [Suc k..<n] = []" using assms(3) by (auto simp: filter_empty_conv)
  ultimately show ?thesis using assms(2) by simp
qed

lemma strict_ancestors_unfold:
  "strict_ancestors pth =
     (let idx = LastIndex pth CHR ''/''
      in if idx \<noteq> - 1 then take (nat idx) pth # strict_ancestors (take (nat idx) pth)
         else [[]])"
proof (cases "LastIndex pth CHR ''/'' = - 1")
  case True
  then have "CHR ''/'' \<notin> set pth" by (simp add: LastIndex_neg)
  then have "\<And>i. i < length pth \<Longrightarrow> pth ! i \<noteq> CHR ''/''"
    using nth_mem by fastforce
  then have "filter (\<lambda>i. pth ! i = CHR ''/'') [0..<length pth] = []"
    by (simp add: filter_empty_conv)
  then show ?thesis using True by (simp add: strict_ancestors_def)
next
  case False
  define k where "k = nat (LastIndex pth CHR ''/'')"
  from LastIndex_pos[OF False] have k: "k < length pth" "pth ! k = CHR ''/''"
    "\<forall>j. k < j \<and> j < length pth \<longrightarrow> pth ! j \<noteq> CHR ''/''"
    by (auto simp: k_def)
  have f: "filter (\<lambda>i. pth ! i = CHR ''/'') [0..<length pth]
      = filter (\<lambda>i. pth ! i = CHR ''/'') [0..<k] @ [k]"
    by (rule filter_upt_last) (use k in auto)
  have g: "filter (\<lambda>i. take k pth ! i = CHR ''/'') [0..<length (take k pth)]
      = filter (\<lambda>i. pth ! i = CHR ''/'') [0..<k]"
    using k(1) by (auto intro!: filter_cong simp: min_def)
  have h: "map (\<lambda>i. take i (take k pth)) (rev (filter (\<lambda>i. pth ! i = CHR ''/'') [0..<k]))
      = map (\<lambda>i. take i pth) (rev (filter (\<lambda>i. pth ! i = CHR ''/'') [0..<k]))"
    by (auto simp: min_def)
  have sa: "strict_ancestors (take k pth)
      = map (\<lambda>i. take i pth) (rev (filter (\<lambda>i. pth ! i = CHR ''/'') [0..<k])) @ [[]]"
    by (simp only: strict_ancestors_def g h)
  have lhs: "strict_ancestors pth
      = take k pth # (map (\<lambda>i. take i pth) (rev (filter (\<lambda>i. pth ! i = CHR ''/'') [0..<k])) @ [[]])"
    by (simp add: strict_ancestors_def f)
  show ?thesis using False by (simp add: Let_def lhs sa flip: k_def)
qed

lemma first_match_None: "first_match cs cand k = None \<longleftrightarrow> cand \<notin> cpath ` set cs"
  by (induction cs arbitrary: k) auto

lemma first_match_shift:
  "first_match cs cand k = map_option (\<lambda>j. j + k) (first_match cs cand 0)"
proof (induction cs arbitrary: k)
  case Nil
  then show ?case by simp
next
  case (Cons c cs)
  have "first_match cs cand (Suc k) = map_option (\<lambda>j. j + Suc k) (first_match cs cand 0)"
    by (rule Cons.IH)
  moreover have "first_match cs cand (Suc 0) = map_option (\<lambda>j. j + Suc 0) (first_match cs cand 0)"
    by (rule Cons.IH)
  ultimately show ?case by (simp add: option.map_comp comp_def)
qed

lemma first_match_Some:
  "first_match cs cand 0 = Some j \<longleftrightarrow>
     j < length cs \<and> cpath (cs ! j) = cand \<and> (\<forall>m < j. cpath (cs ! m) \<noteq> cand)"
proof (induction cs arbitrary: j)
  case Nil
  then show ?case by simp
next
  case (Cons c cs)
  show ?case
  proof (cases "cpath c = cand")
    case True
    then show ?thesis by (cases j) auto
  next
    case False
    have s: "first_match cs cand (Suc 0) = map_option (\<lambda>j. j + Suc 0) (first_match cs cand 0)"
      by (rule first_match_shift)
    show ?thesis
    proof (cases j)
      case 0
      with False s show ?thesis by auto
    next
      case (Suc j')
      have "(\<forall>m<Suc j'. cpath ((c # cs) ! m) \<noteq> cand) \<longleftrightarrow> (\<forall>m<j'. cpath (cs ! m) \<noteq> cand)"
        using False by (auto simp: less_Suc_eq_0_disj)
      with False s Suc Cons.IH[of j'] show ?thesis by auto
    qed
  qed
qed

lemma first_match_cong:
  "map cpath cs = map cpath cs' \<Longrightarrow> first_match cs cand k = first_match cs' cand k"
proof (induction cs arbitrary: cs' k)
  case Nil
  then show ?case by simp
next
  case (Cons c cs)
  then obtain c' cs'' where "cs' = c' # cs''" by (cases cs') auto
  with Cons show ?case by auto
qed

lemma owner_spec_cong:
  assumes "map cpath cs = map cpath cs'"
  shows "owner_spec cs pth = owner_spec cs' pth"
proof -
  have "cpath ` set cs = cpath ` set cs'"
    using assms by (metis list.set_map)
  moreover have "\<And>cand. first_match cs cand 0 = first_match cs' cand 0"
    by (rule first_match_cong[OF assms])
  ultimately show ?thesis
    by (simp add: owner_spec_def cong: option.case_cong)
qed

lemma owner_spec_bound:
  assumes "owner_spec cs pth = Some c"
  shows "c < length cs"
proof -
  from assms obtain cand where "first_match cs cand 0 = Some c"
    by (auto simp: owner_spec_def split: option.splits)
  then show ?thesis by (simp add: first_match_Some)
qed

lemma owner_spec_unfold:
  "owner_spec cs pth =
     (let idx = LastIndex pth CHR ''/'';
          pth' = (if idx \<noteq> - 1 then take (nat idx) pth else [])
      in case first_match cs pth' 0 of
           Some c \<Rightarrow> Some c
         | None \<Rightarrow> if idx \<noteq> - 1 then owner_spec cs pth' else None)"
proof (cases "LastIndex pth CHR ''/'' = - 1")
  case True
  then have sa: "strict_ancestors pth = [[]]"
    by (subst strict_ancestors_unfold) simp
  have "owner_spec cs pth = first_match cs [] 0"
    using first_match_None[of cs "[]" 0] by (auto simp: owner_spec_def sa)
  then show ?thesis using True by (simp add: Let_def split: option.splits)
next
  case False
  define q where "q = take (nat (LastIndex pth CHR ''/'')) pth"
  have sa: "strict_ancestors pth = q # strict_ancestors q"
    using False by (subst strict_ancestors_unfold) (simp add: q_def Let_def)
  have "owner_spec cs pth = (if q \<in> cpath ` set cs then first_match cs q 0 else owner_spec cs q)"
    by (simp add: owner_spec_def sa)
  also have "\<dots> = (case first_match cs q 0 of Some c \<Rightarrow> Some c | None \<Rightarrow> owner_spec cs q)"
    using first_match_None[of cs q 0] by (auto split: option.splits)
  finally show ?thesis using False by (simp add: Let_def q_def cong: option.case_cong)
qed

lemma assign_loop_eq:
  "assign_loop p i pth =
     (case owner_spec (components p) pth of None \<Rightarrow> p | Some c \<Rightarrow> set_owner p i c)"
proof (induction p i pth rule: assign_loop.induct)
  case (1 p i_file pth)
  define idx where "idx = LastIndex pth CHR ''/''"
  define pth' where "pth' = (if idx \<noteq> - 1 then take (nat idx) pth else [])"
  have o: "owner_spec (components p) pth =
      (case first_match (components p) pth' 0 of
           Some c \<Rightarrow> Some c
         | None \<Rightarrow> if idx \<noteq> - 1 then owner_spec (components p) pth' else None)"
    unfolding idx_def pth'_def by (rule owner_spec_unfold[unfolded Let_def])
  have a: "assign_loop p i_file pth =
      (case first_match (components p) pth' 0 of
           Some i_c \<Rightarrow> set_owner p i_file i_c
         | None \<Rightarrow> if idx \<noteq> - 1 then assign_loop p i_file pth' else p)"
    by (subst assign_loop.simps) (simp add: Let_def idx_def pth'_def cong: option.case_cong)
  show ?case
  proof (cases "first_match (components p) pth' 0")
    case None
    show ?thesis
    proof (cases "idx = - 1")
      case True
      with None a o show ?thesis by simp
    next
      case False
      have "assign_loop p i_file pth' =
        (case owner_spec (components p) pth' of None \<Rightarrow> p | Some c \<Rightarrow> set_owner p i_file c)"
        using "1.IH"[OF idx_def pth'_def None False] .
      with None a o False show ?thesis by simp
    qed
  next
    case (Some c)
    with a o show ?thesis by simp
  qed
qed

lemma same_input_refl: "same_input p p"
  by (simp add: same_input_def)

lemma same_input_trans: "same_input r q \<Longrightarrow> same_input q p \<Longrightarrow> same_input r p"
  by (simp add: same_input_def)

lemma same_links_refl: "same_links p p"
  by (simp add: same_links_def)

lemma same_links_trans: "same_links r q \<Longrightarrow> same_links q p \<Longrightarrow> same_links r p"
  by (simp add: same_links_def)

lemma same_input_lengths:
  assumes "same_input q p"
  shows "length (files q) = length (files p)" "length (components q) = length (components p)"
proof -
  show "length (files q) = length (files p)"
    using assms map_eq_imp_length_eq[of fpath "files q" fpath "files p"]
    by (simp add: same_input_def)
  show "length (components q) = length (components p)"
    using assms map_eq_imp_length_eq[of cpath "components q" cpath "components p"]
    by (simp add: same_input_def)
qed

lemma same_input_fpath:
  assumes "same_input q p" "i < length (files p)"
  shows "fpath (files q ! i) = fpath (files p ! i)"
proof -
  have "map fpath (files q) ! i = map fpath (files p) ! i"
    using assms by (simp add: same_input_def)
  then show ?thesis using assms same_input_lengths(1)[OF assms(1)] by simp
qed

lemma same_input_include_paths:
  assumes "same_input q p" "i < length (files p)"
  shows "include_paths (files q ! i) = include_paths (files p ! i)"
proof -
  have "map include_paths (files q) ! i = map include_paths (files p) ! i"
    using assms by (simp add: same_input_def)
  then show ?thesis using assms same_input_lengths(1)[OF assms(1)] by simp
qed

lemma same_input_cpath:
  assumes "same_input q p" "c < length (components p)"
  shows "cpath (components q ! c) = cpath (components p ! c)"
proof -
  have "map cpath (components q) ! c = map cpath (components p) ! c"
    using assms by (simp add: same_input_def)
  then show ?thesis using assms same_input_lengths(2)[OF assms(1)] by simp
qed

lemma same_input_owner_of:
  assumes "same_input q p" "i < length (files p)"
  shows "owner_of q i = owner_of p i"
proof -
  have "map cpath (components q) = map cpath (components p)"
    using assms(1) by (simp add: same_input_def)
  then have "owner_spec (components q) (fpath (files p ! i)) =
      owner_spec (components p) (fpath (files p ! i))"
    by (rule owner_spec_cong)
  then show ?thesis
    unfolding owner_of_def using same_input_fpath[OF assms] by simp
qed

lemma map_update_same: "(map f xs)[i := f (xs ! i)] = map f xs"
  by (simp flip: map_update)

lemma set_owner_same_input: "same_input (set_owner p i c) p"
  by (simp add: same_input_def set_owner_def map_update map_update_same)

lemma set_owner_same_links: "same_links (set_owner p i c) p"
  by (simp add: same_links_def set_owner_def map_update map_update_same)

lemma set_owner_component:
  assumes "i < length (files p)" "j < length (files p)"
  shows "component (files (set_owner p i c) ! j) = (if j = i then Some c else component (files p ! j))"
  using assms by (simp add: set_owner_def nth_list_update)

lemma set_owner_cfiles:
  assumes "c < length (components p)" "c' < length (components p)"
  shows "cfiles (components (set_owner p i c) ! c') =
         cfiles (components p ! c') @ (if c' = c then [i] else [])"
  using assms by (simp add: set_owner_def nth_list_update)

lemma assign_file_eq:
  "assign_file i p = (case owner_of p i of None \<Rightarrow> p | Some c \<Rightarrow> set_owner p i c)"
  by (simp add: assign_file_def owner_of_def assign_loop_eq)

lemma assign_file_same_input: "same_input (assign_file i p) p"
  by (simp add: assign_file_eq same_input_refl set_owner_same_input split: option.splits)

lemma assign_file_same_links: "same_links (assign_file i p) p"
  by (simp add: assign_file_eq same_links_refl set_owner_same_links split: option.splits)

lemma owner_of_bound: "owner_of p i = Some c \<Longrightarrow> c < length (components p)"
  unfolding owner_of_def by (rule owner_spec_bound)

lemma assign_file_component:
  assumes "i < length (files p)" "j < length (files p)"
  shows "component (files (assign_file i p) ! j) =
     (if j = i then (case owner_of p i of None \<Rightarrow> component (files p ! i) | Some c \<Rightarrow> Some c)
      else component (files p ! j))"
  using assms by (simp add: assign_file_eq set_owner_component split: option.splits)

lemma assign_file_cfiles:
  assumes "c' < length (components p)"
  shows "cfiles (components (assign_file i p) ! c') =
         cfiles (components p ! c') @ (if owner_of p i = Some c' then [i] else [])"
  using assms owner_of_bound[of p i]
  by (auto simp: assign_file_eq set_owner_cfiles split: option.splits)

lemma fold_assign_same_input: "same_input (fold assign_file js p) p"
proof (induction js arbitrary: p)
  case Nil
  show ?case by (simp add: same_input_refl)
next
  case (Cons j js)
  show ?case using Cons.IH[of "assign_file j p"] assign_file_same_input[of j p]
    by (auto intro: same_input_trans)
qed

lemma fold_assign_same_links: "same_links (fold assign_file js p) p"
proof (induction js arbitrary: p)
  case Nil
  show ?case by (simp add: same_links_refl)
next
  case (Cons j js)
  show ?case using Cons.IH[of "assign_file j p"] assign_file_same_links[of j p]
    by (auto intro: same_links_trans)
qed

lemma fold_assign_component:
  assumes "\<forall>j \<in> set js. j < length (files p)" "i < length (files p)"
  shows "component (files (fold assign_file js p) ! i) =
     (if i \<in> set js then (case owner_of p i of None \<Rightarrow> component (files p ! i) | Some c \<Rightarrow> Some c)
      else component (files p ! i))"
  using assms
proof (induction js arbitrary: p)
  case Nil
  then show ?case by simp
next
  case (Cons j js)
  let ?q = "assign_file j p"
  have si: "same_input ?q p" by (rule assign_file_same_input)
  have len: "length (files ?q) = length (files p)" by (rule same_input_lengths[OF si])
  have ow: "owner_of ?q i = owner_of p i" using same_input_owner_of[OF si] Cons.prems by simp
  have j: "j < length (files p)" using Cons.prems by simp
  have ih: "component (files (fold assign_file js ?q) ! i) =
     (if i \<in> set js then (case owner_of ?q i of None \<Rightarrow> component (files ?q ! i) | Some c \<Rightarrow> Some c)
      else component (files ?q ! i))"
    using Cons.IH[of ?q] Cons.prems len by simp
  show ?case using ih ow assign_file_component[OF j Cons.prems(2)]
    by (auto split: option.splits)
qed

lemma fold_assign_cfiles:
  assumes "\<forall>j \<in> set js. j < length (files p)" "c < length (components p)"
  shows "cfiles (components (fold assign_file js p) ! c) =
         cfiles (components p ! c) @ filter (\<lambda>i. owner_of p i = Some c) js"
  using assms
proof (induction js arbitrary: p)
  case Nil
  then show ?case by simp
next
  case (Cons j js)
  let ?q = "assign_file j p"
  have si: "same_input ?q p" by (rule assign_file_same_input)
  have len: "length (files ?q) = length (files p)" "length (components ?q) = length (components p)"
    by (rule same_input_lengths[OF si])+
  have ow: "\<forall>i \<in> set js. owner_of ?q i = owner_of p i"
    using same_input_owner_of[OF si] Cons.prems by simp
  have f: "filter (\<lambda>i. owner_of ?q i = Some c) js = filter (\<lambda>i. owner_of p i = Some c) js"
    using ow by (auto intro: filter_cong)
  have ih: "cfiles (components (fold assign_file js ?q) ! c) =
         cfiles (components ?q ! c) @ filter (\<lambda>i. owner_of ?q i = Some c) js"
    using Cons.IH[of ?q] Cons.prems len by simp
  show ?case using ih f assign_file_cfiles[OF Cons.prems(2), of j]
    by simp
qed

lemma assign_same_input: "same_input (assign_files_to_components p) p"
  by (simp add: assign_files_to_components_def fold_assign_same_input)

lemma assign_same_links: "same_links (assign_files_to_components p) p"
  by (simp add: assign_files_to_components_def fold_assign_same_links)

lemma assign_component:
  assumes "i < length (files p)"
  shows "component (files (assign_files_to_components p) ! i) =
     (case owner_of p i of None \<Rightarrow> component (files p ! i) | Some c \<Rightarrow> Some c)"
  using fold_assign_component[of "[0..<length (files p)]" p i] assms
  by (simp add: assign_files_to_components_def)

lemma assign_cfiles:
  assumes "c < length (components p)"
  shows "cfiles (components (assign_files_to_components p) ! c) =
         cfiles (components p ! c) @ filter (\<lambda>i. owner_of p i = Some c) [0..<length (files p)]"
  using fold_assign_cfiles[of "[0..<length (files p)]" p c] assms
  by (simp add: assign_files_to_components_def)

lemma fresh_cfiles: "fresh p \<Longrightarrow> c < length (components p) \<Longrightarrow> cfiles (components p ! c) = []"
  by (simp add: fresh_def list_all_length)

lemma fresh_file:
  "fresh p \<Longrightarrow> i < length (files p) \<Longrightarrow>
   component (files p ! i) = None \<and> incoming_links (files p ! i) = [] \<and>
   outgoing_links (files p ! i) = []"
  by (simp add: fresh_def list_all_length)

lemma count_list_filter_upt:
  "count_list (filter P [0..<n]) i = (if i < n \<and> P i then 1 else 0)"
  by (induction n) auto

lemma last_strict_ancestors: "[] \<in> set (strict_ancestors pth)"
  by (simp add: strict_ancestors_def)

lemma owner_spec_eq_None:
  "owner_spec cs pth = None \<longleftrightarrow> (\<forall>cand \<in> set (strict_ancestors pth). cand \<notin> cpath ` set cs)"
proof (cases "List.find (\<lambda>cand. cand \<in> cpath ` set cs) (strict_ancestors pth)")
  case None
  then have "owner_spec cs pth = None" by (simp add: owner_spec_def)
  moreover have "\<forall>cand \<in> set (strict_ancestors pth). cand \<notin> cpath ` set cs"
    using None by (simp add: find_None_iff)
  ultimately show ?thesis by simp
next
  case (Some cand)
  then have "cand \<in> set (strict_ancestors pth)" "cand \<in> cpath ` set cs"
    by (auto simp: find_Some_iff dest: nth_mem)
  moreover from this have "first_match cs cand 0 \<noteq> None" by (simp add: first_match_None)
  ultimately show ?thesis using Some by (auto simp: owner_spec_def)
qed

lemma owner_spec_Some:
  assumes "owner_spec cs pth = Some c"
  shows "\<exists>cand. List.find (\<lambda>cand. cand \<in> cpath ` set cs) (strict_ancestors pth) = Some cand \<and>
           c < length cs \<and> cpath (cs ! c) = cand \<and> (\<forall>m<c. cpath (cs ! m) \<noteq> cand)"
  using assms by (auto simp: owner_spec_def first_match_Some split: option.splits)

section \<open>Properties of component assignment\<close>

text \<open>
  C2 (longest-prefix assignment). For every file, the owner recorded by
  \<open>assign_files_to_components\<close> is found by going through the strict ancestor directories
  of the file's path, most specific first and the empty string last: at the first ancestor
  that equals the path of a component, the first component with that path becomes the
  owner. When no ancestor is a component path the owner stays as it was. The witness is
  the file \<open>a/b/c/d.h\<close> with components at the empty path, \<open>a\<close> and \<open>a/b\<close>: its
  owner is the component at \<open>a/b\<close>.
\<close>

theorem longest_prefix_assignment:
  assumes "i < length (files p)"
  shows "case List.find (\<lambda>cand. cand \<in> cpath ` set (components p))
                (strict_ancestors (fpath (files p ! i))) of
           None \<Rightarrow> component (files (assign_files_to_components p) ! i) = component (files p ! i)
         | Some cand \<Rightarrow>
             (\<exists>c < length (components p).
                component (files (assign_files_to_components p) ! i) = Some c \<and>
                cpath (components p ! c) = cand \<and>
                (\<forall>m < c. cpath (components p ! m) \<noteq> cand))"
proof (cases "owner_of p i")
  case None
  then have "List.find (\<lambda>cand. cand \<in> cpath ` set (components p))
                (strict_ancestors (fpath (files p ! i))) = None"
    by (simp add: owner_of_def owner_spec_eq_None find_None_iff)
  then show ?thesis using None assign_component[OF assms] by simp
next
  case (Some c)
  from owner_spec_Some[OF Some[unfolded owner_of_def]] Some assign_component[OF assms]
  show ?thesis by auto
qed

theorem longest_prefix_assignment_witness:
  "0 < length (files ex_nested) \<and>
   map cpath (components ex_nested) = ['''', ''a'', ''a/b''] \<and>
   fpath (files ex_nested ! 0) = ''a/b/c/d.h'' \<and>
   strict_ancestors (fpath (files ex_nested ! 0)) = [''a/b/c'', ''a/b'', ''a'', ''''] \<and>
   component (files (assign_files_to_components ex_nested) ! 0) = Some 2"
proof -
  have l: "0 < length (files ex_nested)" by (simp add: ex_nested_def)
  have c: "map cpath (components ex_nested) = ['''', ''a'', ''a/b'']"
    by (simp add: ex_nested_def new_component_def)
  have f: "fpath (files ex_nested ! 0) = ''a/b/c/d.h''"
    by (simp add: ex_nested_def new_file_def)
  have s: "strict_ancestors ''a/b/c/d.h'' = [''a/b/c'', ''a/b'', ''a'', '''']"
    by code_simp
  have cs: "cpath ` set (components ex_nested) = {'''', ''a'', ''a/b''}"
    using c by (metis list.set_map list.simps(15) empty_set insert_commute)
  have fd: "List.find (\<lambda>cand. cand \<in> cpath ` set (components ex_nested))
              (strict_ancestors (fpath (files ex_nested ! 0))) = Some ''a/b''"
    by (simp add: f s cs)
  from longest_prefix_assignment[OF l] fd
  obtain k where k: "k < length (components ex_nested)"
      "component (files (assign_files_to_components ex_nested) ! 0) = Some k"
      "cpath (components ex_nested ! k) = ''a/b''"
    by auto
  have "length (components ex_nested) = 3" by (simp add: ex_nested_def)
  with k(1) have "k = 0 \<or> k = 1 \<or> k = 2" by auto
  with k(3) have "k = 2" by (auto simp: ex_nested_def new_component_def)
  with k(2) l c f s show ?thesis by simp
qed

text \<open>
  C4 (assignment totality), as the code has it. The program creates a component only where
  it meets a file named \<open>CMakeLists.txt\<close>; there is no synthetic root component. In the
  tree of \<open>ex_entries\<close> the file \<open>x.h\<close> lies under no marker directory, and after
  assignment it has no owner and is in no component's list.
\<close>

theorem assignment_totality_counterexample:
  "read_files ex_fs ex_entries ''/r'' ex_flags = Inr ex_no_root \<and>
   component (files (assign_files_to_components ex_no_root) ! 0) = None \<and>
   map cfiles (components (assign_files_to_components ex_no_root)) = [[]]"
  by code_simp

text \<open>
  C4, amended: when a component with the empty path exists, every file of a freshly read
  project has an owner after assignment, and it occurs exactly once in the owner's file
  list and in no other component's list.
\<close>

theorem assignment_total_with_root:
  assumes "fresh p" and "[] \<in> cpath ` set (components p)" and "i < length (files p)"
  shows "\<exists>c < length (components p).
           component (files (assign_files_to_components p) ! i) = Some c \<and>
           (\<forall>c' < length (components p).
              count_list (cfiles (components (assign_files_to_components p) ! c')) i =
                (if c' = c then 1 else 0))"
proof -
  have "owner_of p i \<noteq> None"
    using assms(2) last_strict_ancestors unfolding owner_of_def owner_spec_eq_None by blast
  then obtain c where c: "owner_of p i = Some c" by auto
  have cb: "c < length (components p)" using c by (rule owner_of_bound)
  have "component (files (assign_files_to_components p) ! i) = Some c"
    using assign_component[OF assms(3)] c by simp
  moreover have "count_list (cfiles (components (assign_files_to_components p) ! c')) i =
                (if c' = c then 1 else 0)" if "c' < length (components p)" for c'
    using that assign_cfiles[OF that] fresh_cfiles[OF assms(1) that] assms(3) c
    by (auto simp: count_list_filter_upt)
  ultimately show ?thesis using cb by blast
qed

theorem assignment_total_with_root_witness:
  "fresh ex_nested \<and> [] \<in> cpath ` set (components ex_nested) \<and> 0 < length (files ex_nested) \<and>
   (\<exists>c < length (components ex_nested).
      component (files (assign_files_to_components ex_nested) ! 0) = Some c \<and>
      (\<forall>c' < length (components ex_nested).
         count_list (cfiles (components (assign_files_to_components ex_nested) ! c')) 0 =
           (if c' = c then 1 else 0)))"
proof -
  have h1: "fresh ex_nested" by code_simp
  have h2: "[] \<in> cpath ` set (components ex_nested)"
    by (simp add: ex_nested_def new_component_def)
  have h3: "0 < length (files ex_nested)" by (simp add: ex_nested_def)
  show ?thesis using assignment_total_with_root[OF h1 h2 h3] h1 h2 h3 by blast
qed

text \<open>
  C5 (unassigned-file error surfacing), as the code has it. \<open>assign_files_to_components\<close>
  has no error path. In \<open>ex_orphan\<close> the file \<open>src/x.h\<close> matches no component: it keeps
  the nil owner and is in no file list, no line is printed by the resolution pass, and
  the report of all components is produced without a panic.
\<close>

theorem unassigned_file_counterexample:
  "component (files (run ex_orphan) ! 0) = None \<and>
   map cfiles (components (run ex_orphan)) = [[1]] \<and>
   generate_file_deps_output ex_flags (assign_files_to_components ex_orphan) = [] \<and>
   dbg_components id ex_flags (run ex_orphan) = Inr [(0, [], [])]"
  by code_simp

text \<open>
  C5, amended: a file of a freshly read project none of whose strict ancestor directories
  is the path of a component is left with the nil owner and is appended to no
  component's file list; assignment goes on with the next file.
\<close>

theorem unmatched_file_left_unassigned:
  assumes "fresh p" and "i < length (files p)"
    and "\<forall>cand \<in> set (strict_ancestors (fpath (files p ! i))). cand \<notin> cpath ` set (components p)"
  shows "component (files (assign_files_to_components p) ! i) = None \<and>
         (\<forall>c < length (components p).
            i \<notin> set (cfiles (components (assign_files_to_components p) ! c)))"
proof -
  have o: "owner_of p i = None"
    using assms(3) unfolding owner_of_def owner_spec_eq_None .
  have "component (files (assign_files_to_components p) ! i) = None"
    using assign_component[OF assms(2)] o fresh_file[OF assms(1,2)] by simp
  moreover have "i \<notin> set (cfiles (components (assign_files_to_components p) ! c))"
    if "c < length (components p)" for c
    using assign_cfiles[OF that] fresh_cfiles[OF assms(1) that] o by simp
  ultimately show ?thesis by blast
qed

theorem unmatched_file_left_unassigned_witness:
  "fresh ex_orphan \<and> 0 < length (files ex_orphan) \<and>
   strict_ancestors (fpath (files ex_orphan ! 0)) = [''src'', ''''] \<and>
   map cpath (components ex_orphan) = [''lib''] \<and>
   component (files (assign_files_to_components ex_orphan) ! 0) = None \<and>
   0 \<notin> set (cfiles (components (assign_files_to_components ex_orphan) ! 0))"
proof -
  have h1: "fresh ex_orphan" by code_simp
  have h2: "0 < length (files ex_orphan)" by (simp add: ex_orphan_def)
  have s: "strict_ancestors (fpath (files ex_orphan ! 0)) = [''src'', '''']" by code_simp
  have c: "map cpath (components ex_orphan) = [''lib'']"
    by (simp add: ex_orphan_def new_component_def)
  have h3: "\<forall>cand \<in> set (strict_ancestors (fpath (files ex_orphan ! 0))).
      cand \<notin> cpath ` set (components ex_orphan)"
    by (simp add: s) (simp add: ex_orphan_def new_component_def)
  have l: "0 < length (components ex_orphan)" by (simp add: ex_orphan_def)
  show ?thesis using unmatched_file_left_unassigned[OF h1 h2 h3] h1 h2 s c l by blast
qed

section \<open>Include resolution: what the loops append\<close>

lemma register_in_range:
  assumes "index_in_range m n" "i < n"
  shows "index_in_range (register m key i) n"
  unfolding index_in_range_def
proof (intro allI impI ballI)
  fix k D d
  assume r: "register m key i k = Some D" and d: "d \<in> set D"
  show "d < n"
  proof (cases "k = key")
    case False
    with r have "m k = Some D" by (simp add: register_def)
    with assms(1) d show ?thesis unfolding index_in_range_def by blast
  next
    case True
    show ?thesis
    proof (cases "m key")
      case None
      with r True d assms(2) show ?thesis by (auto simp: register_def)
    next
      case (Some E)
      with assms(1) have "\<forall>e \<in> set E. e < n" unfolding index_in_range_def by blast
      with r True d assms(2) Some show ?thesis by (auto simp: register_def)
    qed
  qed
qed

lemma register_suffixes_in_range:
  "index_in_range m n \<Longrightarrow> i < n \<Longrightarrow> index_in_range (register_suffixes m pth i) n"
proof (induction m pth i rule: register_suffixes.induct)
  case (1 m pth i_file)
  show ?case
  proof (cases "Index pth CHR ''/'' = - 1")
    case True
    then show ?thesis using "1.prems" by (subst register_suffixes.simps) simp
  next
    case False
    define pth' where "pth' = drop (nat (Index pth CHR ''/'' + 1)) pth"
    have "index_in_range (register_suffixes (register m pth' i_file) pth' i_file) n"
      using "1.IH"[OF refl False pth'_def] register_in_range[OF "1.prems"] "1.prems"(2)
      by simp
    then show ?thesis using False
      by (subst register_suffixes.simps) (simp add: Let_def pth'_def)
  qed
qed

lemma fold_index_in_range:
  assumes "index_in_range m (length fs)" "\<forall>i \<in> set js. i < length fs"
  shows "index_in_range
     (fold (\<lambda>i_file m. register_suffixes (register m (fpath (fs ! i_file)) i_file)
                          (fpath (fs ! i_file)) i_file) js m) (length fs)"
  using assms
proof (induction js arbitrary: m)
  case Nil
  then show ?case by simp
next
  case (Cons j js)
  have "index_in_range (register_suffixes (register m (fpath (fs ! j)) j) (fpath (fs ! j)) j)
          (length fs)"
    using Cons.prems by (simp add: register_in_range register_suffixes_in_range)
  then show ?case using Cons by simp
qed

lemma build_index_in_range: "index_in_range (build_index fs) (length fs)"
  unfolding build_index_def
  by (rule fold_index_in_range) (simp_all add: index_in_range_def)

lemma build_index_bound:
  "build_index fs s = Some D \<Longrightarrow> d \<in> set D \<Longrightarrow> d < length fs"
  using build_index_in_range[of fs] unfolding index_in_range_def by blast

lemma same_owners_refl: "same_owners p p"
  by (simp add: same_owners_def same_input_refl)

lemma same_owners_trans: "same_owners r q \<Longrightarrow> same_owners q p \<Longrightarrow> same_owners r p"
  by (auto simp: same_owners_def intro: same_input_trans)

lemma same_owners_length:
  "same_owners q p \<Longrightarrow> length (files q) = length (files p)"
  by (simp add: same_owners_def same_input_lengths)

lemma same_owners_component:
  assumes "same_owners q p" "i < length (files p)"
  shows "component (files q ! i) = component (files p ! i)"
proof -
  have "map component (files q) ! i = map component (files p) ! i"
    using assms by (simp add: same_owners_def)
  then show ?thesis using assms same_owners_length[OF assms(1)] by simp
qed

lemma same_owners_include_paths:
  "same_owners q p \<Longrightarrow> i < length (files p) \<Longrightarrow>
   include_paths (files q ! i) = include_paths (files p ! i)"
  by (simp add: same_owners_def same_input_include_paths)

lemma same_owners_build_index:
  assumes "same_owners q p"
  shows "build_index (files q) = build_index (files p)"
proof -
  have m: "map fpath (files q) = map fpath (files p)"
    using assms by (simp add: same_owners_def same_input_def)
  have l: "length (files q) = length (files p)" by (rule same_owners_length[OF assms])
  have "\<And>i. i < length (files p) \<Longrightarrow> fpath (files q ! i) = fpath (files p ! i)"
    using assms by (simp add: same_owners_def same_input_fpath)
  then have "fold (\<lambda>i_file m. register_suffixes (register m (fpath (files q ! i_file)) i_file)
                          (fpath (files q ! i_file)) i_file) [0..<length (files p)] Map.empty
      = fold (\<lambda>i_file m. register_suffixes (register m (fpath (files p ! i_file)) i_file)
                          (fpath (files p ! i_file)) i_file) [0..<length (files p)] Map.empty"
    by (intro fold_cong) auto
  then show ?thesis by (simp add: build_index_def l)
qed

lemma nth_update_self_fun:
  assumes "j < length fs"
  shows "fs[k := h (fs ! k)] ! j = (if j = k then h (fs ! j) else fs ! j)"
  using assms by (cases "j = k") auto

lemma map_update_fun:
  assumes "\<And>x. g (h x) = g x"
  shows "map g (fs[k := h (fs ! k)]) = map g fs"
  by (simp add: map_update assms map_update_same)

lemma add_link_files:
  "files (add_link i d p) =
     ((files p)[i := (\<lambda>x. x\<lparr>outgoing_links := outgoing_links x @ [d]\<rparr>) (files p ! i)])
       [d := (\<lambda>x. x\<lparr>incoming_links := incoming_links x @ [i]\<rparr>)
               (((files p)[i := (\<lambda>x. x\<lparr>outgoing_links := outgoing_links x @ [d]\<rparr>) (files p ! i)]) ! d)]"
  by (simp add: add_link_def Let_def)

lemma add_link_map:
  assumes "\<And>x v. g (x\<lparr>outgoing_links := v\<rparr>) = g x" "\<And>x v. g (x\<lparr>incoming_links := v\<rparr>) = g x"
  shows "map g (files (add_link i d p)) = map g (files p)"
  unfolding add_link_files
  by (subst map_update_fun, simp add: assms)+ simp

lemma add_link_components: "components (add_link i d p) = components p"
  by (simp add: add_link_def Let_def)

lemma add_link_root: "root (add_link i d p) = root p"
  by (simp add: add_link_def Let_def)

lemma add_link_same_owners: "same_owners (add_link i d p) p"
  unfolding same_owners_def same_input_def
  by (simp add: add_link_components add_link_root add_link_map)

lemma fold_add_link_components: "components (fold (add_link i) D p) = components p"
  by (induction D arbitrary: p) (simp_all add: add_link_components)

lemma add_link_nth:
  assumes "j < length (files p)"
  shows "files (add_link i d p) ! j =
     (let f1 = (if j = i then (files p ! j)\<lparr>outgoing_links := outgoing_links (files p ! j) @ [d]\<rparr>
                else files p ! j)
      in if j = d then f1\<lparr>incoming_links := incoming_links f1 @ [i]\<rparr> else f1)"
  unfolding add_link_files
  using assms by (subst nth_update_self_fun, simp)+ (simp add: Let_def)

lemma add_link_outgoing:
  assumes "j < length (files p)"
  shows "outgoing_links (files (add_link i d p) ! j) =
         outgoing_links (files p ! j) @ (if j = i then [d] else [])"
  by (simp add: add_link_nth[OF assms] Let_def)

lemma add_link_incoming:
  assumes "j < length (files p)"
  shows "incoming_links (files (add_link i d p) ! j) =
         incoming_links (files p ! j) @ (if j = d then [i] else [])"
  by (simp add: add_link_nth[OF assms] Let_def)

lemma fold_add_link_same_owners: "same_owners (fold (add_link i) D p) p"
proof (induction D arbitrary: p)
  case Nil
  show ?case by (simp add: same_owners_refl)
next
  case (Cons d D)
  show ?case using Cons.IH[of "add_link i d p"] add_link_same_owners[of i d p]
    by (auto intro: same_owners_trans)
qed

lemma fold_add_link_outgoing:
  assumes "j < length (files p)"
  shows "outgoing_links (files (fold (add_link i) D p) ! j) =
         outgoing_links (files p ! j) @ (if j = i then D else [])"
  using assms
proof (induction D arbitrary: p)
  case Nil
  then show ?case by simp
next
  case (Cons d D)
  have l: "length (files (add_link i d p)) = length (files p)"
    by (rule same_owners_length[OF add_link_same_owners])
  show ?case using Cons.IH[of "add_link i d p"] Cons.prems l add_link_outgoing[OF Cons.prems]
    by simp
qed

lemma fold_add_link_incoming:
  assumes "j < length (files p)"
  shows "incoming_links (files (fold (add_link i) D p) ! j) =
         incoming_links (files p ! j) @ replicate (count_list D j) i"
  using assms
proof (induction D arbitrary: p)
  case Nil
  then show ?case by simp
next
  case (Cons d D)
  have l: "length (files (add_link i d p)) = length (files p)"
    by (rule same_owners_length[OF add_link_same_owners])
  show ?case using Cons.IH[of "add_link i d p"] Cons.prems l add_link_incoming[OF Cons.prems]
    by (simp add: replicate_app_Cons_same)
qed

lemma is_present_iff:
  "is_present_in_this_component p file D \<longleftrightarrow>
     (\<exists>d \<in> set D. component (files p ! d) = component file)"
  by (induction D) auto

lemma is_present_cong:
  assumes "same_owners q p" "\<forall>d \<in> set D. d < length (files p)" "component file' = component file"
  shows "is_present_in_this_component q file' D = is_present_in_this_component p file D"
  using assms same_owners_component[OF assms(1)] by (simp add: is_present_iff)

lemma resolved_targets_cong:
  assumes "same_owners q p" "index_in_range idx (length (files p))"
    "component file' = component file"
  shows "resolved_targets idx q file' s = resolved_targets idx p file s"
proof (cases "idx s")
  case None
  then show ?thesis by (simp add: resolved_targets_def)
next
  case (Some D)
  then have "\<forall>d \<in> set D. d < length (files p)"
    using assms(2) by (auto simp: index_in_range_def)
  from is_present_cong[OF assms(1) this assms(3)] Some show ?thesis
    by (simp add: resolved_targets_def)
qed

lemma resolve_include_eq:
  "resolve_include idx i file s p = fold (add_link i) (resolved_targets idx p file s) p"
  by (simp add: resolve_include_def resolved_targets_def split: option.splits)

lemma resolve_include_components: "components (resolve_include idx i file s p) = components p"
  by (simp add: resolve_include_eq fold_add_link_components)

lemma resolve_include_same_owners: "same_owners (resolve_include idx i file s p) p"
  by (simp add: resolve_include_eq fold_add_link_same_owners)

lemma resolve_include_outgoing:
  assumes "j < length (files p)"
  shows "outgoing_links (files (resolve_include idx i file s p) ! j) =
         outgoing_links (files p ! j) @ (if j = i then resolved_targets idx p file s else [])"
  using assms by (simp add: resolve_include_eq fold_add_link_outgoing)

lemma resolve_include_incoming:
  assumes "j < length (files p)"
  shows "incoming_links (files (resolve_include idx i file s p) ! j) =
         incoming_links (files p ! j) @ replicate (count_list (resolved_targets idx p file s) j) i"
  using assms by (simp add: resolve_include_eq fold_add_link_incoming)

lemma fold_resolve_include_same_owners:
  "same_owners (fold (resolve_include idx i file) ss q) q"
proof (induction ss arbitrary: q)
  case Nil
  show ?case by (simp add: same_owners_refl)
next
  case (Cons s ss)
  show ?case
    using Cons.IH[of "resolve_include idx i file s q"] resolve_include_same_owners
    by (auto intro: same_owners_trans)
qed

lemma fold_resolve_include_components:
  "components (fold (resolve_include idx i file) ss q) = components q"
  by (induction ss arbitrary: q) (simp_all add: resolve_include_components)

lemma fold_resolve_include_outgoing:
  assumes "index_in_range idx (length (files q))" "j < length (files q)"
  shows "outgoing_links (files (fold (resolve_include idx i file) ss q) ! j) =
         outgoing_links (files q ! j) @
           (if j = i then concat (map (resolved_targets idx q file) ss) else [])"
  using assms
proof (induction ss arbitrary: q)
  case Nil
  then show ?case by simp
next
  case (Cons s ss)
  let ?q1 = "resolve_include idx i file s q"
  have so: "same_owners ?q1 q" by (rule resolve_include_same_owners)
  have l: "length (files ?q1) = length (files q)" by (rule same_owners_length[OF so])
  have t: "resolved_targets idx ?q1 file = resolved_targets idx q file"
    by (rule ext) (rule resolved_targets_cong[OF so Cons.prems(1) refl])
  have "outgoing_links (files (fold (resolve_include idx i file) ss ?q1) ! j) =
         outgoing_links (files ?q1 ! j) @
           (if j = i then concat (map (resolved_targets idx ?q1 file) ss) else [])"
    using Cons.IH[of ?q1] Cons.prems l by simp
  then show ?case using resolve_include_outgoing[OF Cons.prems(2)] t by simp
qed

lemma fold_resolve_include_incoming:
  assumes "index_in_range idx (length (files q))" "j < length (files q)"
  shows "incoming_links (files (fold (resolve_include idx i file) ss q) ! j) =
         incoming_links (files q ! j) @
           replicate (count_list (concat (map (resolved_targets idx q file) ss)) j) i"
  using assms
proof (induction ss arbitrary: q)
  case Nil
  then show ?case by simp
next
  case (Cons s ss)
  let ?q1 = "resolve_include idx i file s q"
  have so: "same_owners ?q1 q" by (rule resolve_include_same_owners)
  have l: "length (files ?q1) = length (files q)" by (rule same_owners_length[OF so])
  have t: "resolved_targets idx ?q1 file = resolved_targets idx q file"
    by (rule ext) (rule resolved_targets_cong[OF so Cons.prems(1) refl])
  have "incoming_links (files (fold (resolve_include idx i file) ss ?q1) ! j) =
         incoming_links (files ?q1 ! j) @
           replicate (count_list (concat (map (resolved_targets idx ?q1 file) ss)) j) i"
    using Cons.IH[of ?q1] Cons.prems l by simp
  then show ?case using resolve_include_incoming[OF Cons.prems(2)] t
    by (simp add: replicate_add)
qed

lemma resolve_file_same_owners: "same_owners (resolve_file idx i q) q"
  by (simp add: resolve_file_def Let_def fold_resolve_include_same_owners)

lemma resolve_file_components: "components (resolve_file idx i q) = components q"
  by (simp add: resolve_file_def Let_def fold_resolve_include_components)

lemma resolve_file_outgoing:
  assumes "index_in_range idx (length (files q))" "j < length (files q)"
  shows "outgoing_links (files (resolve_file idx i q) ! j) =
         outgoing_links (files q ! j) @ (if j = i then file_targets idx q i else [])"
  using fold_resolve_include_outgoing[OF assms]
  by (simp add: resolve_file_def Let_def file_targets_def)

lemma resolve_file_incoming:
  assumes "index_in_range idx (length (files q))" "j < length (files q)"
  shows "incoming_links (files (resolve_file idx i q) ! j) =
         incoming_links (files q ! j) @ replicate (count_list (file_targets idx q i) j) i"
  using fold_resolve_include_incoming[OF assms]
  by (simp add: resolve_file_def Let_def file_targets_def)

lemma file_targets_cong:
  assumes "same_owners q p" "index_in_range idx (length (files p))" "i < length (files p)"
  shows "file_targets idx q i = file_targets idx p i"
proof -
  have c: "component (files q ! i) = component (files p ! i)"
    by (rule same_owners_component[OF assms(1,3)])
  have "resolved_targets idx q (files q ! i) = resolved_targets idx p (files p ! i)"
    by (rule ext) (rule resolved_targets_cong[OF assms(1,2) c])
  then show ?thesis
    using same_owners_include_paths[OF assms(1,3)] by (simp add: file_targets_def)
qed

lemma fold_resolve_file_same_owners: "same_owners (fold (resolve_file idx) js q) q"
proof (induction js arbitrary: q)
  case Nil
  show ?case by (simp add: same_owners_refl)
next
  case (Cons i js)
  show ?case
    using Cons.IH[of "resolve_file idx i q"] resolve_file_same_owners
    by (auto intro: same_owners_trans)
qed

lemma fold_resolve_file_components: "components (fold (resolve_file idx) js q) = components q"
  by (induction js arbitrary: q) (simp_all add: resolve_file_components)

lemma fold_resolve_file_outgoing:
  assumes "index_in_range idx (length (files q))" "j < length (files q)"
    "\<forall>i \<in> set js. i < length (files q)"
  shows "outgoing_links (files (fold (resolve_file idx) js q) ! j) =
         outgoing_links (files q ! j) @
           concat (map (\<lambda>i. if i = j then file_targets idx q i else []) js)"
  using assms
proof (induction js arbitrary: q)
  case Nil
  then show ?case by simp
next
  case (Cons i js)
  let ?q1 = "resolve_file idx i q"
  have so: "same_owners ?q1 q" by (rule resolve_file_same_owners)
  have l: "length (files ?q1) = length (files q)" by (rule same_owners_length[OF so])
  have t: "\<forall>i' \<in> set js. file_targets idx ?q1 i' = file_targets idx q i'"
    using file_targets_cong[OF so Cons.prems(1)] Cons.prems(3) by simp
  have m: "map (\<lambda>i. if i = j then file_targets idx ?q1 i else []) js =
           map (\<lambda>i. if i = j then file_targets idx q i else []) js"
    using t by (auto intro: map_cong)
  have "outgoing_links (files (fold (resolve_file idx) js ?q1) ! j) =
         outgoing_links (files ?q1 ! j) @
           concat (map (\<lambda>i. if i = j then file_targets idx ?q1 i else []) js)"
    using Cons.IH[of ?q1] Cons.prems l by simp
  then show ?case using resolve_file_outgoing[OF Cons.prems(1,2)] m by simp
qed

lemma fold_resolve_file_incoming:
  assumes "index_in_range idx (length (files q))" "j < length (files q)"
    "\<forall>i \<in> set js. i < length (files q)"
  shows "incoming_links (files (fold (resolve_file idx) js q) ! j) =
         incoming_links (files q ! j) @
           concat (map (\<lambda>i. replicate (count_list (file_targets idx q i) j) i) js)"
  using assms
proof (induction js arbitrary: q)
  case Nil
  then show ?case by simp
next
  case (Cons i js)
  let ?q1 = "resolve_file idx i q"
  have so: "same_owners ?q1 q" by (rule resolve_file_same_owners)
  have l: "length (files ?q1) = length (files q)" by (rule same_owners_length[OF so])
  have t: "\<forall>i' \<in> set js. file_targets idx ?q1 i' = file_targets idx q i'"
    using file_targets_cong[OF so Cons.prems(1)] Cons.prems(3) by simp
  have m: "map (\<lambda>i. replicate (count_list (file_targets idx ?q1 i) j) i) js =
           map (\<lambda>i. replicate (count_list (file_targets idx q i) j) i) js"
    using t by (auto intro: map_cong)
  have "incoming_links (files (fold (resolve_file idx) js ?q1) ! j) =
         incoming_links (files ?q1 ! j) @
           concat (map (\<lambda>i. replicate (count_list (file_targets idx ?q1 i) j) i) js)"
    using Cons.IH[of ?q1] Cons.prems l by simp
  then show ?case using resolve_file_incoming[OF Cons.prems(1,2)] m by simp
qed

lemma concat_map_if_upt:
  "concat (map (\<lambda>i. if i = j then X i else []) [0..<n]) = (if j < n then X j else [])"
  by (induction n) auto

lemma generate_same_owners: "same_owners (generate_file_deps p) p"
  by (simp add: generate_file_deps_def Let_def fold_resolve_file_same_owners)

lemma generate_components: "components (generate_file_deps p) = components p"
  by (simp add: generate_file_deps_def Let_def fold_resolve_file_components)

lemma generate_outgoing:
  assumes "j < length (files p)"
  shows "outgoing_links (files (generate_file_deps p) ! j) =
         outgoing_links (files p ! j) @ file_targets (build_index (files p)) p j"
  using fold_resolve_file_outgoing[OF build_index_in_range assms, of "[0..<length (files p)]"] assms
  by (simp add: generate_file_deps_def Let_def concat_map_if_upt)

lemma generate_incoming:
  assumes "j < length (files p)"
  shows "incoming_links (files (generate_file_deps p) ! j) =
         incoming_links (files p ! j) @ file_sources (build_index (files p)) p j"
  using fold_resolve_file_incoming[OF build_index_in_range assms, of "[0..<length (files p)]"]
  by (simp add: generate_file_deps_def Let_def file_sources_def)

lemma resolved_targets_bound:
  assumes "index_in_range idx n" "d \<in> set (resolved_targets idx p file s)"
  shows "d < n"
proof (cases "idx s")
  case None
  with assms(2) show ?thesis by (simp add: resolved_targets_def)
next
  case (Some D)
  with assms(2) have "d \<in> set D" by (simp add: resolved_targets_def split: if_splits)
  with assms(1) Some show ?thesis unfolding index_in_range_def by blast
qed

lemma resolved_targets_other_owner:
  assumes "d \<in> set (resolved_targets idx p file s)"
  shows "component (files p ! d) \<noteq> component file"
proof (cases "idx s")
  case None
  with assms show ?thesis by (simp add: resolved_targets_def)
next
  case (Some D)
  with assms have "d \<in> set D" "\<not> is_present_in_this_component p file D"
    by (simp_all add: resolved_targets_def split: if_splits)
  then show ?thesis by (auto simp: is_present_iff)
qed

lemma file_targets_bound:
  assumes "index_in_range idx n" "d \<in> set (file_targets idx p i)"
  shows "d < n"
proof -
  from assms(2) obtain s where "d \<in> set (resolved_targets idx p (files p ! i) s)"
    by (auto simp: file_targets_def)
  then show ?thesis by (rule resolved_targets_bound[OF assms(1)])
qed

lemma file_targets_other_owner:
  assumes "d \<in> set (file_targets idx p i)"
  shows "component (files p ! d) \<noteq> component (files p ! i)"
proof -
  from assms obtain s where "d \<in> set (resolved_targets idx p (files p ! i) s)"
    by (auto simp: file_targets_def)
  then show ?thesis by (rule resolved_targets_other_owner)
qed

lemma count_list_replicate_eq: "count_list (replicate k x) y = (if x = y then k else 0)"
  by (induction k) auto

lemma count_list_concat_replicate_upt:
  "count_list (concat (map (\<lambda>i. replicate (k i) i) [0..<n])) a = (if a < n then k a else 0)"
  by (induction n) (auto simp: count_list_replicate_eq)

lemma count_file_sources:
  "count_list (file_sources idx p j) i =
     (if i < length (files p) then count_list (file_targets idx p i) j else 0)"
  unfolding file_sources_def by (rule count_list_concat_replicate_upt)

lemma set_file_sources:
  "i \<in> set (file_sources idx p j) \<longleftrightarrow> i < length (files p) \<and> j \<in> set (file_targets idx p i)"
proof -
  have "i \<in> set (file_sources idx p j) \<longleftrightarrow> count_list (file_sources idx p j) i \<noteq> 0"
    by (simp add: count_list_0_iff)
  also have "\<dots> \<longleftrightarrow> i < length (files p) \<and> count_list (file_targets idx p i) j \<noteq> 0"
    by (simp add: count_file_sources)
  finally show ?thesis by (simp add: count_list_0_iff)
qed

lemma links_in_range_iff:
  "links_in_range p \<longleftrightarrow>
     (\<forall>i < length (files p).
        (\<forall>j \<in> set (incoming_links (files p ! i)). j < length (files p)) \<and>
        (\<forall>j \<in> set (outgoing_links (files p ! i)). j < length (files p)))"
proof -
  have "links_in_range p \<longleftrightarrow>
      (\<forall>f \<in> set (files p). \<forall>j \<in> set (incoming_links f @ outgoing_links f). j < length (files p))"
    by (simp only: links_in_range_def list_all_iff)
  also have "\<dots> \<longleftrightarrow>
      (\<forall>i < length (files p).
         \<forall>j \<in> set (incoming_links (files p ! i) @ outgoing_links (files p ! i)). j < length (files p))"
    by (simp only: all_set_conv_all_nth)
  finally show ?thesis by auto
qed

lemma links_symmetric_iff:
  "links_symmetric p \<longleftrightarrow>
     (\<forall>a < length (files p). \<forall>b < length (files p).
        count_list (outgoing_links (files p ! a)) b = count_list (incoming_links (files p ! b)) a)"
  by (auto simp: links_symmetric_def list_all_iff)

lemma no_self_links_iff:
  "no_self_links p \<longleftrightarrow>
     (\<forall>i < length (files p).
        i \<notin> set (outgoing_links (files p ! i)) \<and> i \<notin> set (incoming_links (files p ! i)))"
  by (auto simp: no_self_links_def list_all_iff)

lemma generate_length: "length (files (generate_file_deps p)) = length (files p)"
  by (rule same_owners_length[OF generate_same_owners])

lemma generate_links_in_range:
  assumes "links_in_range p"
  shows "links_in_range (generate_file_deps p)"
  unfolding links_in_range_iff generate_length
proof (intro allI impI conjI ballI)
  fix i j
  assume i: "i < length (files p)"
  have old_in: "\<forall>j \<in> set (incoming_links (files p ! i)). j < length (files p)"
    and old_out: "\<forall>j \<in> set (outgoing_links (files p ! i)). j < length (files p)"
    using assms i unfolding links_in_range_iff by blast+
  { assume "j \<in> set (incoming_links (files (generate_file_deps p) ! i))"
    then consider "j \<in> set (incoming_links (files p ! i))"
      | "j \<in> set (file_sources (build_index (files p)) p i)"
      by (auto simp: generate_incoming[OF i])
    then show "j < length (files p)"
    proof cases
      case 1
      with old_in show ?thesis by blast
    next
      case 2
      then show ?thesis by (simp add: set_file_sources)
    qed }
  { assume "j \<in> set (outgoing_links (files (generate_file_deps p) ! i))"
    then consider "j \<in> set (outgoing_links (files p ! i))"
      | "j \<in> set (file_targets (build_index (files p)) p i)"
      by (auto simp: generate_outgoing[OF i])
    then show "j < length (files p)"
    proof cases
      case 1
      with old_out show ?thesis by blast
    next
      case 2
      then show ?thesis by (rule file_targets_bound[OF build_index_in_range])
    qed }
qed

lemma generate_links_symmetric:
  assumes "links_symmetric p"
  shows "links_symmetric (generate_file_deps p)"
  unfolding links_symmetric_iff generate_length
proof (intro allI impI)
  fix a b
  assume a: "a < length (files p)" and b: "b < length (files p)"
  show "count_list (outgoing_links (files (generate_file_deps p) ! a)) b =
        count_list (incoming_links (files (generate_file_deps p) ! b)) a"
    using assms a b
    by (simp add: generate_outgoing[OF a] generate_incoming[OF b] count_file_sources
        links_symmetric_iff)
qed

lemma generate_no_self_links:
  assumes "no_self_links p"
  shows "no_self_links (generate_file_deps p)"
  unfolding no_self_links_iff generate_length
proof (intro allI impI)
  fix i
  assume i: "i < length (files p)"
  have "i \<notin> set (file_targets (build_index (files p)) p i)"
    using file_targets_other_owner[of i "build_index (files p)" p i] by blast
  moreover have "i \<notin> set (file_sources (build_index (files p)) p i)"
    using file_targets_other_owner[of i "build_index (files p)" p i]
    by (auto simp: set_file_sources)
  ultimately show "i \<notin> set (outgoing_links (files (generate_file_deps p) ! i)) \<and>
        i \<notin> set (incoming_links (files (generate_file_deps p) ! i))"
    using assms i by (simp add: generate_outgoing[OF i] generate_incoming[OF i] no_self_links_iff)
qed

lemma fresh_links_in_range: "fresh p \<Longrightarrow> links_in_range p"
  by (auto simp: fresh_def links_in_range_def list_all_iff)

lemma fresh_links_symmetric: "fresh p \<Longrightarrow> links_symmetric p"
  unfolding links_symmetric_iff using fresh_file[of p] by simp

lemma fresh_no_self_links: "fresh p \<Longrightarrow> no_self_links p"
  unfolding no_self_links_iff using fresh_file[of p] by simp

lemma edge_set_iff:
  "(a, b) \<in> edge_set p \<longleftrightarrow> a < length (files p) \<and> b \<in> set (outgoing_links (files p ! a))"
  by (auto simp: edge_set_def)

lemma incoming_edge_set_iff:
  "(a, b) \<in> incoming_edge_set p \<longleftrightarrow>
     b < length (files p) \<and> a \<in> set (incoming_links (files p ! b))"
  by (auto simp: incoming_edge_set_def)

lemma file_sources_cong:
  assumes "same_owners q p" "index_in_range idx (length (files p))"
  shows "file_sources idx q j = file_sources idx p j"
proof -
  have l: "length (files q) = length (files p)" by (rule same_owners_length[OF assms(1)])
  have "map (\<lambda>i. replicate (count_list (file_targets idx q i) j) i) [0..<length (files p)] =
        map (\<lambda>i. replicate (count_list (file_targets idx p i) j) i) [0..<length (files p)]"
    using file_targets_cong[OF assms] by (auto intro: map_cong)
  then have "concat (map (\<lambda>i. replicate (count_list (file_targets idx q i) j) i) [0..<length (files p)]) =
        concat (map (\<lambda>i. replicate (count_list (file_targets idx p i) j) i) [0..<length (files p)])"
    by (rule arg_cong)
  then show ?thesis unfolding file_sources_def l .
qed

lemma assign_same_owners_again:
  assumes "same_owners q (assign_files_to_components p)"
  shows "same_owners (assign_files_to_components q) (assign_files_to_components p)"
proof -
  let ?p' = "assign_files_to_components p"
  let ?q' = "assign_files_to_components q"
  have si_p: "same_input ?p' p" by (rule assign_same_input)
  have si_q: "same_input q ?p'" using assms by (simp add: same_owners_def)
  have si: "same_input ?q' ?p'" using assign_same_input[of q] si_q by (rule same_input_trans)
  have lp: "length (files ?p') = length (files p)" by (rule same_input_lengths[OF si_p])
  have lq: "length (files q) = length (files p)" using same_input_lengths[OF si_q] lp by simp
  have lq': "length (files ?q') = length (files p)" using same_input_lengths[OF si] lp by simp
  have "component (files ?q' ! i) = component (files ?p' ! i)" if i: "i < length (files p)" for i
  proof -
    have o: "owner_of q i = owner_of p i"
      using same_input_owner_of[OF si_q] same_input_owner_of[OF si_p i] i lp by simp
    have c: "component (files q ! i) = component (files ?p' ! i)"
      using same_owners_component[OF assms] i lp by simp
    show ?thesis
      using assign_component[of i q] assign_component[OF i] i lq o c
      by (simp split: option.splits)
  qed
  then have "map component (files ?q') = map component (files ?p')"
    using lq' lp by (intro nth_equalityI) simp_all
  with si show ?thesis by (simp add: same_owners_def)
qed

section \<open>Properties of include resolution\<close>

text \<open>
  C1 (same-component preference). When the inclusion string \<open>s\<close> has the index entry
  \<open>D\<close> and some file of \<open>D\<close> has the same owner as the including file, resolving
  \<open>s\<close> leaves the whole project as it is: no outgoing link and no incoming link is
  appended anywhere, not even towards the file of the same component.
\<close>

theorem same_component_no_edge:
  assumes "path_to_files s = Some D" and "d \<in> set D"
    and "component (files p ! d) = component f"
  shows "resolve_include path_to_files i_file f s p = p"
proof -
  have "is_present_in_this_component p f D"
    using assms(2,3) by (auto simp: is_present_iff)
  then show ?thesis using assms(1) by (simp add: resolve_include_def)
qed

theorem same_component_no_edge_witness:
  "build_index (files (assign_files_to_components ex_shadow)) ''util.h'' = Some [1, 2] \<and>
   component (files (assign_files_to_components ex_shadow) ! 1) =
     component (files (assign_files_to_components ex_shadow) ! 0) \<and>
   resolve_include (build_index (files (assign_files_to_components ex_shadow))) 0
       (files (assign_files_to_components ex_shadow) ! 0) ''util.h''
       (assign_files_to_components ex_shadow) =
     assign_files_to_components ex_shadow \<and>
   map outgoing_links (files (run ex_shadow)) = [[], [], []] \<and>
   map incoming_links (files (run ex_shadow)) = [[], [], []]"
proof -
  have h1: "build_index (files (assign_files_to_components ex_shadow)) ''util.h'' = Some [1, 2]"
    by code_simp
  have h2: "(1::nat) \<in> set [1, 2]" by simp
  have h3: "component (files (assign_files_to_components ex_shadow) ! 1) =
     component (files (assign_files_to_components ex_shadow) ! 0)"
    by code_simp
  have e1: "map outgoing_links (files (run ex_shadow)) = [[], [], []]" by code_simp
  have e2: "map incoming_links (files (run ex_shadow)) = [[], [], []]" by code_simp
  show ?thesis
    using same_component_no_edge[where d = 1 and i_file = 0 and s = "''util.h''"
        and path_to_files = "build_index (files (assign_files_to_components ex_shadow))",
        OF h1 h2 h3] h1 h3 e1 e2
    by simp
qed

text \<open>
  C3 (cross-component fan-out, symmetric recording). When no file of the index entry
  \<open>D\<close> of \<open>s\<close> has the owner of the including file \<open>i\<close>, resolving \<open>s\<close> appends
  all of \<open>D\<close> to the outgoing links of \<open>i\<close> and appends \<open>i\<close> to the incoming links
  of every file of \<open>D\<close>, once per occurrence, and changes no other link. Hence the
  whole pass keeps the links in range and symmetric: \<open>b\<close> is an outgoing link of
  \<open>a\<close> as often as \<open>a\<close> is an incoming link of \<open>b\<close>.
\<close>

theorem cross_component_fan_out:
  "(path_to_files s = Some D \<and> (\<forall>d \<in> set D. component (files p ! d) \<noteq> component f) \<longrightarrow>
      (\<forall>j < length (files p).
         outgoing_links (files (resolve_include path_to_files i f s p) ! j) =
           outgoing_links (files p ! j) @ (if j = i then D else []) \<and>
         incoming_links (files (resolve_include path_to_files i f s p) ! j) =
           incoming_links (files p ! j) @ replicate (count_list D j) i)) \<and>
   (links_in_range p \<and> links_symmetric p \<longrightarrow>
      links_in_range (generate_file_deps p) \<and> links_symmetric (generate_file_deps p))"
proof (intro conjI impI allI)
  fix j
  assume a: "path_to_files s = Some D \<and> (\<forall>d \<in> set D. component (files p ! d) \<noteq> component f)"
    and j: "j < length (files p)"
  have t: "resolved_targets path_to_files p f s = D"
    using a by (simp add: resolved_targets_def is_present_iff)
  show "outgoing_links (files (resolve_include path_to_files i f s p) ! j) =
           outgoing_links (files p ! j) @ (if j = i then D else [])"
    using resolve_include_outgoing[OF j] t by simp
  show "incoming_links (files (resolve_include path_to_files i f s p) ! j) =
           incoming_links (files p ! j) @ replicate (count_list D j) i"
    using resolve_include_incoming[OF j] t by simp
next
  assume "links_in_range p \<and> links_symmetric p"
  then show "links_in_range (generate_file_deps p)" by (simp add: generate_links_in_range)
next
  assume "links_in_range p \<and> links_symmetric p"
  then show "links_symmetric (generate_file_deps p)" by (simp add: generate_links_symmetric)
qed

theorem cross_component_fan_out_witness:
  "build_index (files (assign_files_to_components ex_fanout)) ''util.h'' = Some [1, 2] \<and>
   map component (files (assign_files_to_components ex_fanout)) = [Some 0, Some 1, Some 2] \<and>
   outgoing_links (files (resolve_include (build_index (files (assign_files_to_components ex_fanout)))
       0 (files (assign_files_to_components ex_fanout) ! 0) ''util.h''
       (assign_files_to_components ex_fanout)) ! 0) = [1, 2] \<and>
   incoming_links (files (resolve_include (build_index (files (assign_files_to_components ex_fanout)))
       0 (files (assign_files_to_components ex_fanout) ! 0) ''util.h''
       (assign_files_to_components ex_fanout)) ! 2) = [0] \<and>
   links_in_range (assign_files_to_components ex_fanout) \<and>
   links_symmetric (assign_files_to_components ex_fanout) \<and>
   links_in_range (run ex_fanout) \<and> links_symmetric (run ex_fanout) \<and>
   map outgoing_links (files (run ex_fanout)) = [[1, 2], [], []] \<and>
   map incoming_links (files (run ex_fanout)) = [[], [0], [0]]"
proof -
  let ?P = "assign_files_to_components ex_fanout"
  have h1: "build_index (files ?P) ''util.h'' = Some [1, 2]" by code_simp
  have c: "map component (files ?P) = [Some 0, Some 1, Some 2]" by code_simp
  have h2: "\<forall>d \<in> set [1, 2]. component (files ?P ! d) \<noteq> component (files ?P ! 0)"
    by code_simp
  have l: "length (files ?P) = 3" by code_simp
  have o: "outgoing_links (files ?P ! 0) = []" by code_simp
  have i: "incoming_links (files ?P ! 2) = []" by code_simp
  have r: "links_in_range ?P" by code_simp
  have s: "links_symmetric ?P" by code_simp
  have e1: "map outgoing_links (files (run ex_fanout)) = [[1, 2], [], []]" by code_simp
  have e2: "map incoming_links (files (run ex_fanout)) = [[], [0], [0]]" by code_simp
  note t = cross_component_fan_out[where p = ?P and s = "''util.h''" and D = "[1, 2]"
      and path_to_files = "build_index (files ?P)" and f = "files ?P ! 0" and i = 0]
  from t h1 h2 l o have "outgoing_links (files (resolve_include (build_index (files ?P))
       0 (files ?P ! 0) ''util.h'' ?P) ! 0) = [1, 2]"
    by simp
  moreover from t h1 h2 l i have "incoming_links (files (resolve_include (build_index (files ?P))
       0 (files ?P ! 0) ''util.h'' ?P) ! 2) = [0]"
    by simp
  moreover from t r s have "links_in_range (run ex_fanout) \<and> links_symmetric (run ex_fanout)"
    by (simp add: run_def)
  ultimately show ?thesis using h1 c r s e1 e2 by simp
qed

text \<open>
  C9 (no self-loops). A file that is itself registered under one of its inclusion strings
  is a candidate of its own component, so resolving that string changes nothing; and
  the whole pass never links a file to itself, in neither list.
\<close>

theorem no_self_loops:
  "(path_to_files s = Some D \<and> i \<in> set D \<longrightarrow>
      resolve_include path_to_files i (files p ! i) s p = p) \<and>
   (no_self_links p \<longrightarrow> no_self_links (generate_file_deps p))"
proof (intro conjI impI)
  assume a: "path_to_files s = Some D \<and> i \<in> set D"
  then have "is_present_in_this_component p (files p ! i) D"
    by (auto simp: is_present_iff)
  then show "resolve_include path_to_files i (files p ! i) s p = p"
    using a by (simp add: resolve_include_def)
next
  assume "no_self_links p"
  then show "no_self_links (generate_file_deps p)" by (rule generate_no_self_links)
qed

theorem no_self_loops_witness:
  "build_index (files (assign_files_to_components ex_self)) ''self.h'' = Some [0, 1] \<and>
   resolve_include (build_index (files (assign_files_to_components ex_self))) 0
       (files (assign_files_to_components ex_self) ! 0) ''self.h''
       (assign_files_to_components ex_self) =
     assign_files_to_components ex_self \<and>
   no_self_links (assign_files_to_components ex_self) \<and>
   no_self_links (run ex_self)"
proof -
  let ?P = "assign_files_to_components ex_self"
  have h1: "build_index (files ?P) ''self.h'' = Some [0, 1]" by code_simp
  have n: "no_self_links ?P" by code_simp
  note t = no_self_loops[where p = ?P and s = "''self.h''" and D = "[0, 1]"
      and path_to_files = "build_index (files ?P)" and i = 0]
  from t h1 have "resolve_include (build_index (files ?P)) 0 (files ?P ! 0) ''self.h'' ?P = ?P"
    by simp
  moreover from t n have "no_self_links (run ex_self)" by (simp add: run_def)
  ultimately show ?thesis using h1 n by simp
qed

text \<open>
  C6 (idempotence). Running assignment and resolution leaves the discovered input as it
  is, and running both a second time on the result gives the same owner for every file,
  the same set of member files for every component and the same set of edges, read from
  the outgoing lists or from the incoming lists.
\<close>

theorem run_twice_same_sets:
  "same_input (run p) p \<and>
   map component (files (run (run p))) = map component (files (run p)) \<and>
   groupings (run (run p)) = groupings (run p) \<and>
   edge_set (run (run p)) = edge_set (run p) \<and>
   incoming_edge_set (run (run p)) = incoming_edge_set (run p)"
proof -
  let ?p' = "assign_files_to_components p"
  let ?p1 = "generate_file_deps ?p'"
  let ?q' = "assign_files_to_components ?p1"
  let ?p2 = "generate_file_deps ?q'"
  let ?n = "length (files p)"
  have so1: "same_owners ?p1 ?p'" by (rule generate_same_owners)
  have soq: "same_owners ?q' ?p'" by (rule assign_same_owners_again[OF so1])
  have so2: "same_owners ?p2 ?q'" by (rule generate_same_owners)
  have si_p': "same_input ?p' p" by (rule assign_same_input)
  have l': "length (files ?p') = ?n" by (rule same_input_lengths[OF si_p'])
  have l1: "length (files ?p1) = ?n" using same_owners_length[OF so1] l' by simp
  have lq: "length (files ?q') = ?n" using same_owners_length[OF soq] l' by simp
  have l2: "length (files ?p2) = ?n" using same_owners_length[OF so2] lq by simp
  have c1: "same_input ?p1 p"
    using so1 si_p' by (auto simp: same_owners_def intro: same_input_trans)
  have c2: "map component (files ?p2) = map component (files ?p1)"
    using so1 soq so2 by (simp add: same_owners_def)
  have lc': "length (components ?p') = length (components p)"
    by (rule same_input_lengths[OF si_p'])
  have comp1: "components ?p1 = components ?p'" by (rule generate_components)
  have comp2: "components ?p2 = components ?q'" by (rule generate_components)
  have lcq: "length (components ?q') = length (components p)"
    using same_input_lengths(2)[OF assign_same_input[of ?p1]] comp1 lc' by simp
  have g: "set (cfiles (components ?q' ! c)) = set (cfiles (components ?p' ! c))"
    if c: "c < length (components p)" for c
  proof -
    have f: "filter (\<lambda>i. owner_of ?p1 i = Some c) [0..<?n] = filter (\<lambda>i. owner_of p i = Some c) [0..<?n]"
      using same_input_owner_of[OF c1] by (auto intro: filter_cong)
    have "cfiles (components ?q' ! c) =
        cfiles (components ?p1 ! c) @ filter (\<lambda>i. owner_of ?p1 i = Some c) [0..<?n]"
      using assign_cfiles[of c ?p1] c comp1 lc' l1 by simp
    moreover have "cfiles (components ?p' ! c) =
        cfiles (components p ! c) @ filter (\<lambda>i. owner_of p i = Some c) [0..<?n]"
      using assign_cfiles[OF c] .
    ultimately show ?thesis using comp1 f by auto
  qed
  have c3: "groupings ?p2 = groupings ?p1"
    unfolding groupings_def comp1 comp2
    using g lcq lc' by (intro nth_equalityI) simp_all
  have idx: "build_index (files ?q') = build_index (files ?p')"
    by (rule same_owners_build_index[OF soq])
  have rng: "index_in_range (build_index (files ?p')) (length (files ?p'))"
    by (rule build_index_in_range)
  have sl: "same_links ?q' ?p1" by (rule assign_same_links)
  have out2: "outgoing_links (files ?p2 ! j) =
      outgoing_links (files ?p1 ! j) @ file_targets (build_index (files ?p')) ?p' j"
    and in2: "incoming_links (files ?p2 ! j) =
      incoming_links (files ?p1 ! j) @ file_sources (build_index (files ?p')) ?p' j"
    if j: "j < ?n" for j
  proof -
    have "map outgoing_links (files ?q') ! j = map outgoing_links (files ?p1) ! j"
      and "map incoming_links (files ?q') ! j = map incoming_links (files ?p1) ! j"
      using sl by (simp_all add: same_links_def)
    then have o: "outgoing_links (files ?q' ! j) = outgoing_links (files ?p1 ! j)"
      and i: "incoming_links (files ?q' ! j) = incoming_links (files ?p1 ! j)"
      using j lq l1 by simp_all
    show "outgoing_links (files ?p2 ! j) =
      outgoing_links (files ?p1 ! j) @ file_targets (build_index (files ?p')) ?p' j"
      using generate_outgoing[of j ?q'] j lq o idx file_targets_cong[OF soq rng, of j] l'
      by simp
    show "incoming_links (files ?p2 ! j) =
      incoming_links (files ?p1 ! j) @ file_sources (build_index (files ?p')) ?p' j"
      using generate_incoming[of j ?q'] j lq i idx file_sources_cong[OF soq rng, of j]
      by simp
  qed
  have out1: "outgoing_links (files ?p1 ! j) =
      outgoing_links (files ?p' ! j) @ file_targets (build_index (files ?p')) ?p' j"
    and in1: "incoming_links (files ?p1 ! j) =
      incoming_links (files ?p' ! j) @ file_sources (build_index (files ?p')) ?p' j"
    if j: "j < ?n" for j
    using generate_outgoing[of j ?p'] generate_incoming[of j ?p'] j l' by simp_all
  have c4: "edge_set ?p2 = edge_set ?p1"
  proof (intro set_eqI)
    fix e :: "nat \<times> nat"
    obtain a b where e: "e = (a, b)" by (cases e)
    show "e \<in> edge_set ?p2 \<longleftrightarrow> e \<in> edge_set ?p1"
      unfolding e edge_set_iff l1 l2 using out2[of a] out1[of a] by auto
  qed
  have c5: "incoming_edge_set ?p2 = incoming_edge_set ?p1"
  proof (intro set_eqI)
    fix e :: "nat \<times> nat"
    obtain a b where e: "e = (a, b)" by (cases e)
    show "e \<in> incoming_edge_set ?p2 \<longleftrightarrow> e \<in> incoming_edge_set ?p1"
      unfolding e incoming_edge_set_iff l1 l2 using in2[of b] in1[of b] by auto
  qed
  show ?thesis using c1 c2 c3 c4 c5 by (simp add: run_def)
qed

text \<open>The lists themselves are appended to again by the second run.\<close>

lemma run_twice_lists_example:
  "map outgoing_links (files (run ex_fanout)) = [[1, 2], [], []] \<and>
   map outgoing_links (files (run (run ex_fanout))) = [[1, 2, 1, 2], [], []] \<and>
   map cfiles (components (run ex_fanout)) = [[0], [1], [2]] \<and>
   map cfiles (components (run (run ex_fanout))) = [[0, 0], [1, 1], [2, 2]]"
  by code_simp

section \<open>Aggregation, sorting and extraction: what the loops compute\<close>

lemma bucket_Nil: "bucket [] k = []"
  by (simp add: bucket_def)

lemma bucket_bucket_append:
  "bucket (bucket_append m k e) k' = bucket m k' @ (if k' = k then [e] else [])"
  by (simp add: bucket_def bucket_append_def update_conv')

lemma buckets_ok_Nil: "buckets_ok []"
  by (simp add: buckets_ok_def)

lemma set_update_subset:
  "kv \<in> set (AList.update k v al) \<Longrightarrow> kv = (k, v) \<or> kv \<in> set al"
  by (induction al) (auto split: if_splits)

lemma buckets_ok_bucket_append:
  assumes "buckets_ok m"
  shows "buckets_ok (bucket_append m k e)"
proof -
  have "distinct (map fst (bucket_append m k e))"
    using assms by (simp add: buckets_ok_def bucket_append_def distinct_update)
  moreover have "snd kv \<noteq> []" if "kv \<in> set (bucket_append m k e)" for kv
    using set_update_subset[OF that[unfolded bucket_append_def]] assms
    by (auto simp: buckets_ok_def)
  ultimately show ?thesis by (simp add: buckets_ok_def)
qed

lemma buckets_ok_entry:
  assumes "buckets_ok m"
  shows "(k, es) \<in> set m \<longleftrightarrow> es \<noteq> [] \<and> bucket m k = es"
proof
  assume a: "(k, es) \<in> set m"
  then have "map_of m k = Some es" using assms by (simp add: buckets_ok_def)
  moreover have "es \<noteq> []" using a assms by (auto simp: buckets_ok_def)
  ultimately show "es \<noteq> [] \<and> bucket m k = es" by (simp add: bucket_def)
next
  assume "es \<noteq> [] \<and> bucket m k = es"
  then have "map_of m k = Some es" by (auto simp: bucket_def split: option.splits)
  then show "(k, es) \<in> set m" by (rule map_of_SomeD)
qed

lemma scan_outgoing_ok:
  assumes "\<forall>out \<in> set outs. component (files p ! out) \<noteq> None" "buckets_ok m"
  shows "\<exists>m'. scan_outgoing p c_path f outs m = Inr m' \<and> buckets_ok m' \<and>
              (\<forall>k. bucket m' k = bucket m k @ cross_out p c_path f outs k)"
  using assms
proof (induction outs arbitrary: m)
  case Nil
  then show ?case by (simp add: cross_out_def)
next
  case (Cons out outs)
  from Cons.prems obtain k0 where k0: "component (files p ! out) = Some k0" by auto
  show ?case
  proof (cases "cpath (components p ! k0) \<noteq> c_path")
    case True
    let ?m1 = "bucket_append m k0 \<lparr>efrom = f, eto = out\<rparr>"
    have "buckets_ok ?m1" by (rule buckets_ok_bucket_append[OF Cons.prems(2)])
    from Cons.IH[OF _ this] Cons.prems(1)
    obtain m' where m': "scan_outgoing p c_path f outs ?m1 = Inr m'" "buckets_ok m'"
      "\<forall>k. bucket m' k = bucket ?m1 k @ cross_out p c_path f outs k"
      by auto
    have "bucket m' k = bucket m k @ cross_out p c_path f (out # outs) k" for k
      using m'(3) k0 True by (auto simp: bucket_bucket_append cross_out_def)
    with m'(1,2) k0 True show ?thesis by simp
  next
    case False
    from Cons.IH[OF _ Cons.prems(2)] Cons.prems(1)
    obtain m' where m': "scan_outgoing p c_path f outs m = Inr m'" "buckets_ok m'"
      "\<forall>k. bucket m' k = bucket m k @ cross_out p c_path f outs k"
      by auto
    have "bucket m' k = bucket m k @ cross_out p c_path f (out # outs) k" for k
      using m'(3) k0 False by (auto simp: cross_out_def)
    with m'(1,2) k0 False show ?thesis by simp
  qed
qed

lemma scan_incoming_ok:
  assumes "\<forall>i \<in> set ins. component (files p ! i) \<noteq> None" "buckets_ok m"
  shows "\<exists>m'. scan_incoming p c_path f ins m = Inr m' \<and> buckets_ok m' \<and>
              (\<forall>k. bucket m' k = bucket m k @ cross_in p c_path f ins k)"
  using assms
proof (induction ins arbitrary: m)
  case Nil
  then show ?case by (simp add: cross_in_def)
next
  case (Cons i ins)
  from Cons.prems obtain k0 where k0: "component (files p ! i) = Some k0" by auto
  show ?case
  proof (cases "cpath (components p ! k0) \<noteq> c_path")
    case True
    let ?m1 = "bucket_append m k0 \<lparr>efrom = i, eto = f\<rparr>"
    have "buckets_ok ?m1" by (rule buckets_ok_bucket_append[OF Cons.prems(2)])
    from Cons.IH[OF _ this] Cons.prems(1)
    obtain m' where m': "scan_incoming p c_path f ins ?m1 = Inr m'" "buckets_ok m'"
      "\<forall>k. bucket m' k = bucket ?m1 k @ cross_in p c_path f ins k"
      by auto
    have "bucket m' k = bucket m k @ cross_in p c_path f (i # ins) k" for k
      using m'(3) k0 True by (auto simp: bucket_bucket_append cross_in_def)
    with m'(1,2) k0 True show ?thesis by simp
  next
    case False
    from Cons.IH[OF _ Cons.prems(2)] Cons.prems(1)
    obtain m' where m': "scan_incoming p c_path f ins m = Inr m'" "buckets_ok m'"
      "\<forall>k. bucket m' k = bucket m k @ cross_in p c_path f ins k"
      by auto
    have "bucket m' k = bucket m k @ cross_in p c_path f (i # ins) k" for k
      using m'(3) k0 False by (auto simp: cross_in_def)
    with m'(1,2) k0 False show ?thesis by simp
  qed
qed

lemma scan_outgoing_nil:
  assumes "scan_outgoing p c_path f outs m = Inr m'"
  shows "\<forall>out \<in> set outs. component (files p ! out) \<noteq> None"
  using assms by (induction outs arbitrary: m) (auto split: option.splits if_splits)

lemma scan_incoming_nil:
  assumes "scan_incoming p c_path f ins m = Inr m'"
  shows "\<forall>i \<in> set ins. component (files p ! i) \<noteq> None"
  using assms by (induction ins arbitrary: m) (auto split: option.splits if_splits)

lemma scan_files_ok:
  assumes "scan_files p c_path fs (inc, out) = Inr (inc', out')" "buckets_ok inc" "buckets_ok out"
  shows "buckets_ok inc' \<and> buckets_ok out' \<and>
     (\<forall>k. bucket inc' k =
        bucket inc k @ concat (map (\<lambda>f. cross_in p c_path f (incoming_links (files p ! f)) k) fs)) \<and>
     (\<forall>k. bucket out' k =
        bucket out k @ concat (map (\<lambda>f. cross_out p c_path f (outgoing_links (files p ! f)) k) fs))"
  using assms
proof (induction fs arbitrary: inc out)
  case Nil
  then show ?case by simp
next
  case (Cons f fs)
  from Cons.prems(1) obtain inc1 where
    i1: "scan_incoming p c_path f (incoming_links (files p ! f)) inc = Inr inc1"
    by (auto split: sum.splits)
  from Cons.prems(1) i1 obtain out1 where
    o1: "scan_outgoing p c_path f (outgoing_links (files p ! f)) out = Inr out1"
    by (auto split: sum.splits)
  from Cons.prems(1) i1 o1 have r: "scan_files p c_path fs (inc1, out1) = Inr (inc', out')"
    by simp
  from scan_incoming_ok[OF scan_incoming_nil[OF i1] Cons.prems(2), of c_path f] i1
  have i2: "buckets_ok inc1"
    "\<forall>k. bucket inc1 k = bucket inc k @ cross_in p c_path f (incoming_links (files p ! f)) k"
    by auto
  from scan_outgoing_ok[OF scan_outgoing_nil[OF o1] Cons.prems(3), of c_path f] o1
  have o2: "buckets_ok out1"
    "\<forall>k. bucket out1 k = bucket out k @ cross_out p c_path f (outgoing_links (files p ! f)) k"
    by auto
  from Cons.IH[OF r i2(1) o2(1)] i2(2) o2(2) show ?case by simp
qed

lemma dependency_eq:
  "(d :: dependency) = to_dependency kv \<longleftrightarrow> dcomponent d = fst kv \<and> edges d = snd kv"
  by (cases d) (auto simp: to_dependency_def)

lemma mem_map_to_dependency:
  assumes "buckets_ok m"
  shows "d \<in> set (map to_dependency m) \<longleftrightarrow> edges d \<noteq> [] \<and> edges d = bucket m (dcomponent d)"
proof -
  have "d \<in> set (map to_dependency m) \<longleftrightarrow> (dcomponent d, edges d) \<in> set m"
  proof
    assume "d \<in> set (map to_dependency m)"
    then obtain kv where kv: "kv \<in> set m" "d = to_dependency kv" by auto
    then have "kv = (dcomponent d, edges d)" by (simp add: dependency_eq prod_eq_iff)
    with kv(1) show "(dcomponent d, edges d) \<in> set m" by simp
  next
    assume a: "(dcomponent d, edges d) \<in> set m"
    have "d = to_dependency (dcomponent d, edges d)" by (simp add: dependency_eq)
    with a show "d \<in> set (map to_dependency m)" by (metis image_eqI list.set_map)
  qed
  then show ?thesis using buckets_ok_entry[OF assms, of "dcomponent d" "edges d"] by auto
qed

lemma linked_components_ok:
  assumes "linked_components map_range p i_c = Inr (ins, outs)"
    and "\<forall>m. set (map_range m) = set m"
  shows "(d \<in> set ins \<longleftrightarrow> edges d \<noteq> [] \<and> edges d = cross_edges_in p i_c (dcomponent d)) \<and>
         (d \<in> set outs \<longleftrightarrow> edges d \<noteq> [] \<and> edges d = cross_edges_out p i_c (dcomponent d))"
proof -
  from assms(1) obtain inc out where
    s: "scan_files p (cpath (components p ! i_c)) (cfiles (components p ! i_c)) ([], []) = Inr (inc, out)"
    and io: "ins = map to_dependency (map_range inc)" "outs = map to_dependency (map_range out)"
    by (auto simp: linked_components_def Let_def split: sum.splits)
  from scan_files_ok[OF s buckets_ok_Nil buckets_ok_Nil]
  have ok: "buckets_ok inc" "buckets_ok out"
    and bi: "\<And>k. bucket inc k = cross_edges_in p i_c k"
    and bo: "\<And>k. bucket out k = cross_edges_out p i_c k"
    by (simp_all add: bucket_Nil cross_edges_in_def cross_edges_out_def)
  have "set ins = set (map to_dependency inc)" "set outs = set (map to_dependency out)"
    using assms(2) io by simp_all
  then show ?thesis
    using mem_map_to_dependency[OF ok(1), of d] mem_map_to_dependency[OF ok(2), of d] bi bo
    by simp
qed

lemma set_insert_less: "set (insert_less lt x ys) = insert x (set ys)"
  by (induction ys) auto

lemma length_insert_less: "length (insert_less lt x ys) = Suc (length ys)"
  by (induction ys) auto

lemma sorted_insert_less:
  fixes key :: "'a \<Rightarrow> 'b::linorder"
  assumes "sorted (map key ys)"
  shows "sorted (map key (insert_less (\<lambda>a b. key a < key b) x ys))"
  using assms by (induction ys) (auto simp: set_insert_less)

lemma set_sort_Slice: "set (sort_Slice lt xs) = set xs"
  by (induction xs) (simp_all add: sort_Slice_def set_insert_less)

lemma length_sort_Slice: "length (sort_Slice lt xs) = length xs"
  by (induction xs) (simp_all add: sort_Slice_def length_insert_less)

lemma sorted_sort_Slice:
  fixes key :: "'a \<Rightarrow> 'b::linorder"
  shows "sorted (map key (sort_Slice (\<lambda>a b. key a < key b) xs))"
  by (induction xs) (simp_all add: sort_Slice_def sorted_insert_less)

lemma path_less_eq: "path_less p = (\<lambda>a b. partner_path p a < partner_path p b)"
  by (simp add: path_less_def partner_path_def fun_eq_iff)

lemma string_less_bytewise:
  "\<not> xs < ([] :: string)"
  "([] :: string) < y # ys"
  "(x # xs < y # ys) \<longleftrightarrow> (of_char x :: nat) < of_char y \<or> x = y \<and> xs < (ys :: string)"
  by (simp_all add: less_char_def)

lemma extract_line_malformed:
  assumes "HasPrefix line ''#include''"
    and "no_delimiter_pair line \<or> \<not> clean (extracted line)"
  shows "extract_line flags pth line (results, out) =
     (results,
      out @ (if warn_malformed flags
             then [malformed_msg pth (if no_delimiter_pair line then line else extracted line)]
             else []))"
  using assms
  by (auto simp: extract_line_def Let_def no_delimiter_pair_def extracted_def clean_def)

lemma extract_line_clean:
  assumes "\<forall>s \<in> set (fst st). clean s"
  shows "\<forall>s \<in> set (fst (extract_line flags pth line st)). clean s"
  using assms
  by (auto simp: extract_line_def Let_def clean_def)

lemma fold_extract_line_clean:
  assumes "\<forall>s \<in> set (fst st). clean s"
  shows "\<forall>s \<in> set (fst (fold (extract_line flags pth) lines st)). clean s"
  using assms
proof (induction lines arbitrary: st)
  case Nil
  then show ?case by simp
next
  case (Cons line lines)
  have "\<forall>s \<in> set (fst (extract_line flags pth line st)). clean s"
    by (rule extract_line_clean[OF Cons.prems])
  from Cons.IH[OF this] show ?case by simp
qed

section \<open>Discovery returns a fresh project; when a report is produced\<close>

lemma add_source_fresh:
  assumes "fresh p" "add_source fs flags pth suffixes p = Inr p'"
  shows "fresh p'"
  using assms
proof (induction suffixes arbitrary: p)
  case Nil
  then show ?case by simp
next
  case (Cons suffix suffixes)
  show ?case
  proof (cases "HasSuffix pth suffix")
    case False
    with Cons show ?thesis by simp
  next
    case True
    with Cons.prems(2) obtain incs out where
      e: "extract_includes fs pth flags = Inr (incs, out)"
      by (auto split: sum.splits)
    let ?q = "p\<lparr>files := files p @
                       [\<lparr>fpath = rel_path p pth, include_paths = incs,
                         component = None, incoming_links = [], outgoing_links = []\<rparr>]\<rparr>"
    have "fresh ?q" using Cons.prems(1) by (simp add: fresh_def)
    moreover have "add_source fs flags pth suffixes ?q = Inr p'"
      using Cons.prems(2) True e by simp
    ultimately show ?thesis by (rule Cons.IH)
  qed
qed

lemma walk_fn_fresh:
  assumes "fresh p" "walk_fn sfx fs flags p e = Inr (p', r)"
  shows "fresh p'"
proof (cases "werr e \<or> list_ex (Contains (wpath e)) [''.svn'', ''dev/tools'']")
  case True
  with assms show ?thesis by (auto simp: walk_fn_def split: if_splits)
next
  case False
  let ?p1 = "(if wname e = ''CMakeLists.txt''
                      then p\<lparr>components := components p @
                             [\<lparr>cpath = rel_path p (TrimSuffix (wpath e) ''/CMakeLists.txt''),
                               cfiles = []\<rparr>]\<rparr>
                      else p)"
  have f1: "fresh ?p1" using assms(1) by (simp add: fresh_def)
  from assms(2) False have "add_source fs flags (wpath e) sfx ?p1 = Inr p'"
    by (auto simp: walk_fn_def Let_def split: sum.splits if_splits)
  with f1 show ?thesis by (rule add_source_fresh)
qed

lemma walk_fresh:
  assumes "fresh p" "walk sfx fs flags es p = Inr p'"
  shows "fresh p'"
  using assms
proof (induction es arbitrary: p)
  case Nil
  then show ?case by simp
next
  case (Cons e es)
  from Cons.prems(2) obtain p1 r where w: "walk_fn sfx fs flags p e = Inr (p1, r)"
    by (auto split: sum.splits)
  have "fresh p1" by (rule walk_fn_fresh[OF Cons.prems(1) w])
  moreover have "walk sfx fs flags es p1 = Inr p'" using Cons.prems(2) w by simp
  ultimately show ?case by (rule Cons.IH)
qed

lemma read_files_fresh:
  assumes "read_files fs entries root_path flags = Inr p"
  shows "fresh p"
proof -
  have "fresh \<lparr>root = TrimSuffix root_path ''/'', files = [], components = []\<rparr>"
    by (simp add: fresh_def)
  then show ?thesis using assms unfolding read_files_def by (rule walk_fresh)
qed

lemma scan_files_returns:
  assumes "\<forall>f \<in> set fs. \<forall>l \<in> set (incoming_links (files p ! f) @ outgoing_links (files p ! f)).
             component (files p ! l) \<noteq> None"
    and "buckets_ok inc" "buckets_ok out"
  shows "\<exists>r. scan_files p c_path fs (inc, out) = Inr r"
  using assms
proof (induction fs arbitrary: inc out)
  case Nil
  then show ?case by simp
next
  case (Cons f fs)
  have a: "\<forall>i \<in> set (incoming_links (files p ! f)). component (files p ! i) \<noteq> None"
    and b: "\<forall>i \<in> set (outgoing_links (files p ! f)). component (files p ! i) \<noteq> None"
    using Cons.prems(1) by auto
  from scan_incoming_ok[OF a Cons.prems(2), of c_path f]
  obtain inc1 where i1: "scan_incoming p c_path f (incoming_links (files p ! f)) inc = Inr inc1"
    "buckets_ok inc1" by auto
  from scan_outgoing_ok[OF b Cons.prems(3), of c_path f]
  obtain out1 where o1: "scan_outgoing p c_path f (outgoing_links (files p ! f)) out = Inr out1"
    "buckets_ok out1" by auto
  have "\<exists>r. scan_files p c_path fs (inc1, out1) = Inr r"
    using Cons.IH[OF _ i1(2) o1(2)] Cons.prems(1) by simp
  then show ?case using i1(1) o1(1) by simp
qed

lemma scan_files_owned:
  assumes "scan_files p c_path fs acc = Inr r"
  shows "\<forall>f \<in> set fs. \<forall>l \<in> set (incoming_links (files p ! f) @ outgoing_links (files p ! f)).
             component (files p ! l) \<noteq> None"
  using assms
proof (induction fs arbitrary: acc)
  case Nil
  then show ?case by simp
next
  case (Cons f fs)
  obtain inc out where acc: "acc = (inc, out)" by (cases acc)
  from Cons.prems acc obtain inc1 where
    i1: "scan_incoming p c_path f (incoming_links (files p ! f)) inc = Inr inc1"
    by (auto split: sum.splits)
  from Cons.prems acc i1 obtain out1 where
    o1: "scan_outgoing p c_path f (outgoing_links (files p ! f)) out = Inr out1"
    by (auto split: sum.splits)
  from Cons.prems acc i1 o1 have r: "scan_files p c_path fs (inc1, out1) = Inr r" by simp
  from Cons.IH[OF r] scan_incoming_nil[OF i1] scan_outgoing_nil[OF o1] show ?case by auto
qed

lemma links_owned_iff:
  "links_owned p i_c \<longleftrightarrow>
     (\<forall>f \<in> set (cfiles (components p ! i_c)).
        \<forall>l \<in> set (incoming_links (files p ! f) @ outgoing_links (files p ! f)).
          component (files p ! l) \<noteq> None)"
  by (simp only: links_owned_def list_all_iff)

lemma linked_components_returns:
  "(\<exists>r. linked_components map_range p i_c = Inr r) \<longleftrightarrow> links_owned p i_c"
proof
  assume "\<exists>r. linked_components map_range p i_c = Inr r"
  then obtain r' where
    "scan_files p (cpath (components p ! i_c)) (cfiles (components p ! i_c)) ([], []) = Inr r'"
    by (auto simp: linked_components_def Let_def split: sum.splits)
  from scan_files_owned[OF this] show "links_owned p i_c" by (simp only: links_owned_iff)
next
  assume "links_owned p i_c"
  then have "\<exists>r. scan_files p (cpath (components p ! i_c)) (cfiles (components p ! i_c)) ([], []) = Inr r"
    unfolding links_owned_iff by (intro scan_files_returns) (simp_all add: buckets_ok_Nil)
  then show "\<exists>r. linked_components map_range p i_c = Inr r"
    by (auto simp: linked_components_def Let_def split: sum.splits)
qed

lemma dbg_returns: "(\<exists>r. dbg map_range p i_c = Inr r) \<longleftrightarrow> links_owned p i_c"
proof -
  have "(\<exists>r. dbg map_range p i_c = Inr r) \<longleftrightarrow> (\<exists>r. linked_components map_range p i_c = Inr r)"
    by (auto simp: dbg_def split: sum.splits)
  then show ?thesis by (simp only: linked_components_returns)
qed

text \<open>Owners are compared as pointers, so two files without owner count as files of one
  component: \<open>x.h\<close> gets no edge to \<open>z.h\<close>. Its edge to \<open>a/y.h\<close> makes the report of
  the component \<open>a\<close> read the path of a nil owner.\<close>

lemma unassigned_edge_example:
  "map component (files (run ex_orphan_edge)) = [None, Some 0, None] \<and>
   map outgoing_links (files (run ex_orphan_edge)) = [[1], [], []] \<and>
   dbg id (run ex_orphan_edge) 0 = Inl NilDereference"
  by code_simp

text \<open>With the root \<open>.\<close> the suffix \<open>/CMakeLists.txt\<close> is not found in the path
  \<open>CMakeLists.txt\<close>, so the component of the top directory gets the path
  \<open>CMakeLists.txt\<close> and not the empty path, and \<open>main.cpp\<close> finds no owner.\<close>

lemma read_files_dot_root_example:
  "read_files [''main.cpp'' \<mapsto> []] ex_entries_dot ''.'' ex_flags =
     Inr \<lparr>root = ''.'', files = [new_file ''main.cpp'' []],
          components = [new_component ''CMakeLists.txt'']\<rparr> \<and>
   map component (files (assign_files_to_components
     \<lparr>root = ''.'', files = [new_file ''main.cpp'' []],
      components = [new_component ''CMakeLists.txt'']\<rparr>)) = [None]"
  by code_simp

section \<open>Properties of aggregation, reporting and extraction\<close>

text \<open>
  C8 (sorted aggregation reporting). The report of a component is produced exactly when
  every file linked with one of its member files has an owner. The incoming and the
  outgoing dependency list that \<open>dbg\<close> then prints are sorted by the path of the partner
  component, ascending in the lexicographic order on bytes, whatever the order in which
  the maps were traversed; they hold the same dependencies as the lists of
  \<open>linked_components\<close>.
\<close>

theorem sorted_reporting:
  "((\<exists>r. dbg map_range p i_c = Inr r) \<longleftrightarrow> links_owned p i_c) \<and>
   (dbg map_range p i_c = Inr (ins, outs) \<longrightarrow>
      sorted (map (partner_path p) ins) \<and> sorted (map (partner_path p) outs) \<and>
      (\<exists>ins0 outs0. linked_components map_range p i_c = Inr (ins0, outs0) \<and>
         set ins = set ins0 \<and> length ins = length ins0 \<and>
         set outs = set outs0 \<and> length outs = length outs0))"
proof (intro conjI impI)
  show "(\<exists>r. dbg map_range p i_c = Inr r) \<longleftrightarrow> links_owned p i_c" by (rule dbg_returns)
next
  assume a: "dbg map_range p i_c = Inr (ins, outs)"
  then obtain ins0 outs0 where
    l: "linked_components map_range p i_c = Inr (ins0, outs0)"
    and i: "ins = sort_Slice (path_less p) ins0" and o: "outs = sort_Slice (path_less p) outs0"
    by (auto simp: dbg_def split: sum.splits)
  show "sorted (map (partner_path p) ins)" "sorted (map (partner_path p) outs)"
    unfolding i o path_less_eq by (rule sorted_sort_Slice)+
  show "\<exists>ins0 outs0. linked_components map_range p i_c = Inr (ins0, outs0) \<and>
         set ins = set ins0 \<and> length ins = length ins0 \<and>
         set outs = set outs0 \<and> length outs = length outs0"
    using l i o by (simp add: set_sort_Slice length_sort_Slice)
qed

theorem sorted_reporting_witness:
  "links_owned (run ex_sort) 0 \<and>
   dbg id (run ex_sort) 0 =
     Inr ([], [\<lparr>dcomponent = 2, edges = [\<lparr>efrom = 0, eto = 2\<rparr>]\<rparr>,
               \<lparr>dcomponent = 1, edges = [\<lparr>efrom = 0, eto = 1\<rparr>]\<rparr>]) \<and>
   linked_components id (run ex_sort) 0 =
     Inr ([], [\<lparr>dcomponent = 1, edges = [\<lparr>efrom = 0, eto = 1\<rparr>]\<rparr>,
               \<lparr>dcomponent = 2, edges = [\<lparr>efrom = 0, eto = 2\<rparr>]\<rparr>]) \<and>
   map (partner_path (run ex_sort))
     [\<lparr>dcomponent = 2, edges = [\<lparr>efrom = 0, eto = 2\<rparr>]\<rparr>,
      \<lparr>dcomponent = 1, edges = [\<lparr>efrom = 0, eto = 1\<rparr>]\<rparr>] = [''a'', ''z''] \<and>
   sorted (map (partner_path (run ex_sort))
     [\<lparr>dcomponent = 2, edges = [\<lparr>efrom = 0, eto = 2\<rparr>]\<rparr>,
      \<lparr>dcomponent = 1, edges = [\<lparr>efrom = 0, eto = 1\<rparr>]\<rparr>])"
proof -
  have h: "dbg id (run ex_sort) 0 =
     Inr ([], [\<lparr>dcomponent = 2, edges = [\<lparr>efrom = 0, eto = 2\<rparr>]\<rparr>,
               \<lparr>dcomponent = 1, edges = [\<lparr>efrom = 0, eto = 1\<rparr>]\<rparr>])"
    by code_simp
  have l: "linked_components id (run ex_sort) 0 =
     Inr ([], [\<lparr>dcomponent = 1, edges = [\<lparr>efrom = 0, eto = 1\<rparr>]\<rparr>,
               \<lparr>dcomponent = 2, edges = [\<lparr>efrom = 0, eto = 2\<rparr>]\<rparr>])"
    by code_simp
  have m: "map (partner_path (run ex_sort))
     [\<lparr>dcomponent = 2, edges = [\<lparr>efrom = 0, eto = 2\<rparr>]\<rparr>,
      \<lparr>dcomponent = 1, edges = [\<lparr>efrom = 0, eto = 1\<rparr>]\<rparr>] = [''a'', ''z'']"
    by code_simp
  note t = sorted_reporting[where p = "run ex_sort" and map_range = id and i_c = 0 and ins = "[]"
      and outs = "[\<lparr>dcomponent = 2, edges = [\<lparr>efrom = 0, eto = 2\<rparr>]\<rparr>,
               \<lparr>dcomponent = 1, edges = [\<lparr>efrom = 0, eto = 1\<rparr>]\<rparr>]"]
  from t h have "links_owned (run ex_sort) 0" by blast
  moreover from t h have "sorted (map (partner_path (run ex_sort))
     [\<lparr>dcomponent = 2, edges = [\<lparr>efrom = 0, eto = 2\<rparr>]\<rparr>,
      \<lparr>dcomponent = 1, edges = [\<lparr>efrom = 0, eto = 1\<rparr>]\<rparr>])"
    by blast
  ultimately show ?thesis using h l m by simp
qed

text \<open>
  C10 (no edge deduplication). The resolver appends, for every occurrence of an inclusion
  string in a file's list, all targets the string resolves to: the outgoing links after
  the pass are the old ones followed by the targets of each string in turn, and a file
  gains as many incoming records from \<open>i\<close> as it occurs among the targets of \<open>i\<close>.
  The dependency lists of \<open>linked_components\<close> hold, for each partner component with at
  least one edge, every cross-component link of every member file, duplicates included.
\<close>

theorem duplicates_kept:
  "(j < length (files p) \<longrightarrow>
      outgoing_links (files (generate_file_deps p) ! j) =
        outgoing_links (files p ! j) @
        concat (map (resolved_targets (build_index (files p)) p (files p ! j))
                  (include_paths (files p ! j))) \<and>
      (\<forall>i < length (files p).
         count_list (incoming_links (files (generate_file_deps p) ! j)) i =
           count_list (incoming_links (files p ! j)) i +
           count_list (concat (map (resolved_targets (build_index (files p)) p (files p ! i))
                                 (include_paths (files p ! i)))) j)) \<and>
   (linked_components map_range p i_c = Inr (ins, outs) \<and> (\<forall>m. set (map_range m) = set m) \<longrightarrow>
      (\<forall>d. d \<in> set outs \<longleftrightarrow> edges d \<noteq> [] \<and> edges d = cross_edges_out p i_c (dcomponent d)) \<and>
      (\<forall>d. d \<in> set ins \<longleftrightarrow> edges d \<noteq> [] \<and> edges d = cross_edges_in p i_c (dcomponent d)))"
proof (intro conjI impI allI)
  assume j: "j < length (files p)"
  show "outgoing_links (files (generate_file_deps p) ! j) =
        outgoing_links (files p ! j) @
        concat (map (resolved_targets (build_index (files p)) p (files p ! j))
                  (include_paths (files p ! j)))"
    using generate_outgoing[OF j] by (simp add: file_targets_def)
next
  fix i
  assume j: "j < length (files p)" and i: "i < length (files p)"
  show "count_list (incoming_links (files (generate_file_deps p) ! j)) i =
           count_list (incoming_links (files p ! j)) i +
           count_list (concat (map (resolved_targets (build_index (files p)) p (files p ! i))
                                 (include_paths (files p ! i)))) j"
    using generate_incoming[OF j] i by (simp add: count_file_sources file_targets_def)
next
  fix d
  assume a: "linked_components map_range p i_c = Inr (ins, outs) \<and> (\<forall>m. set (map_range m) = set m)"
  then show "d \<in> set outs \<longleftrightarrow> edges d \<noteq> [] \<and> edges d = cross_edges_out p i_c (dcomponent d)"
    using linked_components_ok[of map_range p i_c ins outs d] by blast
next
  fix d
  assume a: "linked_components map_range p i_c = Inr (ins, outs) \<and> (\<forall>m. set (map_range m) = set m)"
  then show "d \<in> set ins \<longleftrightarrow> edges d \<noteq> [] \<and> edges d = cross_edges_in p i_c (dcomponent d)"
    using linked_components_ok[of map_range p i_c ins outs d] by blast
qed

theorem duplicates_kept_witness:
  "include_paths (files (assign_files_to_components ex_dup) ! 0) = [''lib/api.h'', ''api.h'', ''api.h''] \<and>
   outgoing_links (files (generate_file_deps (assign_files_to_components ex_dup)) ! 0) = [1, 1, 1] \<and>
   incoming_links (files (generate_file_deps (assign_files_to_components ex_dup)) ! 1) = [0, 0, 0] \<and>
   linked_components id (run ex_dup) 0 =
     Inr ([], [\<lparr>dcomponent = 1,
                 edges = [\<lparr>efrom = 0, eto = 1\<rparr>, \<lparr>efrom = 0, eto = 1\<rparr>, \<lparr>efrom = 0, eto = 1\<rparr>]\<rparr>]) \<and>
   cross_edges_out (run ex_dup) 0 1 =
     [\<lparr>efrom = 0, eto = 1\<rparr>, \<lparr>efrom = 0, eto = 1\<rparr>, \<lparr>efrom = 0, eto = 1\<rparr>]"
proof -
  let ?P = "assign_files_to_components ex_dup"
  have inc: "include_paths (files ?P ! 0) = [''lib/api.h'', ''api.h'', ''api.h'']" by code_simp
  have l: "0 < length (files ?P)" by code_simp
  have o: "outgoing_links (files ?P ! 0) = []" by code_simp
  have t: "concat (map (resolved_targets (build_index (files ?P)) ?P (files ?P ! 0))
                  (include_paths (files ?P ! 0))) = [1, 1, 1]"
    by code_simp
  have i: "incoming_links (files (generate_file_deps ?P) ! 1) = [0, 0, 0]" by code_simp
  have lc: "linked_components id (run ex_dup) 0 =
     Inr ([], [\<lparr>dcomponent = 1,
                 edges = [\<lparr>efrom = 0, eto = 1\<rparr>, \<lparr>efrom = 0, eto = 1\<rparr>, \<lparr>efrom = 0, eto = 1\<rparr>]\<rparr>])"
    by code_simp
  have s: "\<forall>m :: buckets. set (id m) = set m" by simp
  note a = duplicates_kept[where p = ?P and j = 0]
  from a l o t have "outgoing_links (files (generate_file_deps ?P) ! 0) = [1, 1, 1]"
    by simp
  moreover
  note b = duplicates_kept[where p = "run ex_dup" and map_range = id and i_c = 0 and ins = "[]"
      and outs = "[\<lparr>dcomponent = 1,
                 edges = [\<lparr>efrom = 0, eto = 1\<rparr>, \<lparr>efrom = 0, eto = 1\<rparr>, \<lparr>efrom = 0, eto = 1\<rparr>]\<rparr>]"]
  from b lc s have "\<forall>d. d \<in> set [\<lparr>dcomponent = 1,
                 edges = [\<lparr>efrom = 0, eto = 1\<rparr>, \<lparr>efrom = 0, eto = 1\<rparr>, \<lparr>efrom = 0, eto = 1\<rparr>]\<rparr>] \<longleftrightarrow>
       edges d \<noteq> [] \<and> edges d = cross_edges_out (run ex_dup) 0 (dcomponent d)"
    by blast
  then have "cross_edges_out (run ex_dup) 0 1 =
     [\<lparr>efrom = 0, eto = 1\<rparr>, \<lparr>efrom = 0, eto = 1\<rparr>, \<lparr>efrom = 0, eto = 1\<rparr>]"
    by (metis dependency.select_convs(1,2) list.set_intros(1))
  ultimately show ?thesis using inc i lc by simp
qed

text \<open>
  C7 (malformed-include rejection). A line that starts with \<open>#include\<close> and has no
  delimiter pair, or whose extracted string has a backslash or two dots in a row, adds
  nothing to the inclusion strings of the file and prints exactly one line if
  \<open>warn_malformed\<close> is set and nothing otherwise. No string that \<open>extract_includes\<close> returns
  has a backslash or two dots in a row, so none reaches the index lookup of the resolver.
\<close>

theorem malformed_include_rejected:
  "(HasPrefix line ''#include'' \<and> (no_delimiter_pair line \<or> \<not> clean (extracted line)) \<longrightarrow>
      extract_line flags pth line (results, out) =
        (results,
         out @ (if warn_malformed flags
                then [malformed_msg pth (if no_delimiter_pair line then line else extracted line)]
                else []))) \<and>
   (extract_includes fs pth flags = Inr (results', out') \<longrightarrow>
      (\<forall>s \<in> set results'. \<not> Contains s [CHR 0x5C] \<and> \<not> Contains s ''..''))"
proof (intro conjI impI)
  assume "HasPrefix line ''#include'' \<and> (no_delimiter_pair line \<or> \<not> clean (extracted line))"
  then show "extract_line flags pth line (results, out) =
        (results,
         out @ (if warn_malformed flags
                then [malformed_msg pth (if no_delimiter_pair line then line else extracted line)]
                else []))"
    using extract_line_malformed by blast
next
  assume a: "extract_includes fs pth flags = Inr (results', out')"
  then obtain lines where "fs pth = Some lines"
    and r: "fold (extract_line flags pth) lines ([], []) = (results', out')"
    by (auto simp: extract_includes_def split: option.splits)
  have "\<forall>s \<in> set (fst (fold (extract_line flags pth) lines ([], []))). clean s"
    by (rule fold_extract_line_clean) simp
  then show "\<forall>s \<in> set results'. \<not> Contains s [CHR 0x5C] \<and> \<not> Contains s ''..''"
    by (simp add: r clean_def)
qed

theorem malformed_include_rejected_witness:
  "extracted ex_line_backslash = ''a'' @ [CHR 0x5C] @ ''b.h'' \<and>
   extract_line ex_flags ''f.cpp'' ex_line_backslash ([], []) =
     ([], [malformed_msg ''f.cpp'' (''a'' @ [CHR 0x5C] @ ''b.h'')]) \<and>
   extract_line ex_flags_quiet ''f.cpp'' ex_line_backslash ([], []) = ([], []) \<and>
   extracted ex_line_parent = ''..'' @ [CHR 0x5C] @ ''x.h'' \<and>
   extract_line ex_flags ''f.cpp'' ex_line_parent ([], []) =
     ([], [malformed_msg ''f.cpp'' (''..'' @ [CHR 0x5C] @ ''x.h'')]) \<and>
   no_delimiter_pair ex_line_unclosed \<and>
   extract_line ex_flags ''f.cpp'' ex_line_unclosed ([], []) =
     ([], [malformed_msg ''f.cpp'' ex_line_unclosed]) \<and>
   extract_includes [''f.cpp'' \<mapsto> [ex_line_backslash, ex_line_parent, ex_line_unclosed, ''#include <ok.h>'']]
       ''f.cpp'' ex_flags_quiet = Inr ([''ok.h''], [])"
proof -
  have p1: "HasPrefix ex_line_backslash ''#include''" by code_simp
  have p2: "HasPrefix ex_line_parent ''#include''" by code_simp
  have p3: "HasPrefix ex_line_unclosed ''#include''" by code_simp
  have e1: "extracted ex_line_backslash = ''a'' @ [CHR 0x5C] @ ''b.h''" by code_simp
  have e2: "extracted ex_line_parent = ''..'' @ [CHR 0x5C] @ ''x.h''" by code_simp
  have d1: "\<not> no_delimiter_pair ex_line_backslash" by code_simp
  have d2: "\<not> no_delimiter_pair ex_line_parent" by code_simp
  have d3: "no_delimiter_pair ex_line_unclosed" by code_simp
  have c1: "\<not> clean (extracted ex_line_backslash)" by code_simp
  have c2: "\<not> clean (extracted ex_line_parent)" by code_simp
  have w: "warn_malformed ex_flags" "\<not> warn_malformed ex_flags_quiet"
    by (simp_all add: ex_flags_def ex_flags_quiet_def)
  have x: "extract_includes [''f.cpp'' \<mapsto> [ex_line_backslash, ex_line_parent, ex_line_unclosed, ''#include <ok.h>'']]
       ''f.cpp'' ex_flags_quiet = Inr ([''ok.h''], [])"
    by code_simp
  note t = malformed_include_rejected[where results = "[]" and out = "[]" and pth = "''f.cpp''"]
  have "extract_line ex_flags ''f.cpp'' ex_line_backslash ([], []) =
     ([], [malformed_msg ''f.cpp'' (''a'' @ [CHR 0x5C] @ ''b.h'')])"
    using t[where line = ex_line_backslash and flags = ex_flags] p1 c1 d1 w e1 by simp
  moreover have "extract_line ex_flags_quiet ''f.cpp'' ex_line_backslash ([], []) = ([], [])"
    using t[where line = ex_line_backslash and flags = ex_flags_quiet] p1 c1 w by simp
  moreover have "extract_line ex_flags ''f.cpp'' ex_line_parent ([], []) =
     ([], [malformed_msg ''f.cpp'' (''..'' @ [CHR 0x5C] @ ''x.h'')])"
    using t[where line = ex_line_parent and flags = ex_flags] p2 c2 d2 w e2 by simp
  moreover have "extract_line ex_flags ''f.cpp'' ex_line_unclosed ([], []) =
     ([], [malformed_msg ''f.cpp'' ex_line_unclosed])"
    using t[where line = ex_line_unclosed and flags = ex_flags] p3 d3 w by simp
  ultimately show ?thesis using e1 e2 d3 x by simp
qed

end
